theory Spec2Isabelle
  imports Complex_Main "HOL-Library.Sublist"
begin

section \<open>Data model of \<^verbatim>\<open>video_processor.py\<close>\<close>

text \<open>
  The module walks the decoded frames of a video, keeps the frames at which the picture
  changes (\<^verbatim>\<open>VideoProcessor.extract_frames_with_changes\<close>) and then removes near-duplicates
  from the kept frames (\<^verbatim>\<open>VideoProcessor.remove_duplicate_frames\<close>).

  Python integers are \<open>int\<close>, similarity scores and thresholds are \<open>real\<close> (the floating
  point rounding of the scores is not modelled: the scoring functions are parameters).
  A raster image is a value of the type variable \<open>'img\<close>, a MobileNet feature vector one
  of \<open>'feat\<close>.
\<close>

text \<open>
  The frame dictionary built at lines 257-263, with its keys in that order. The
  \<^verbatim>\<open>'image'\<close> entry is \<open>None\<close> when the key is missing (lines 386 and 439 test for it) and
  a \<^verbatim>\<open>PIL.Image\<close> otherwise, so that the \<^verbatim>\<open>isinstance\<close> tests of lines 390 and 443 hold
  whenever the key is there. A dictionary with another kind of value under \<^verbatim>\<open>'image'\<close>
  is not represented: the dictionary comparison of line 458 stands outside every
  \<^verbatim>\<open>try\<close> and can raise on such a value (an array compared with an image has no truth
  value), so \<^verbatim>\<open>remove_duplicate_frames\<close> is a function into lists only on the dictionaries
  represented here.
\<close>

record 'img frame =
  frame_number :: int
  timestamp :: real
  image_entry :: "'img option"
  width :: int
  height :: int

text \<open>
  A progress dictionary handed to \<^verbatim>\<open>progress_callback\<close>, as an association list. The
  keys carried are the string and integer ones; the float-valued keys (\<^verbatim>\<open>percentage\<close>,
  \<^verbatim>\<open>fps\<close>, \<^verbatim>\<open>video_duration\<close>) and the wall-clock ones (\<^verbatim>\<open>elapsed_time\<close>,
  \<^verbatim>\<open>estimated_remaining\<close>, \<^verbatim>\<open>processing_speed\<close>) are left out.
\<close>

datatype pyval = PStr string | PInt int | PBool bool

type_synonym snapshot = "(string \<times> pyval) list"

text \<open>The attributes of a \<^verbatim>\<open>VideoProcessor\<close> that the two passes read.\<close>

record processor =
  change_threshold :: real
  min_frame_interval :: int
  frame_skip :: int
  use_ml :: bool
  feature_model_loaded :: bool

text \<open>
  What the module takes from OpenCV, TensorFlow, NumPy and scikit-image.
  \<^item> \<open>tensorflow_available\<close> is the module flag \<^verbatim>\<open>TENSORFLOW_AVAILABLE\<close>; \<open>mobilenet_loads\<close>
    says that the \<^verbatim>\<open>try\<close> block of the constructor (lines 59-73) runs through.
  \<^item> \<open>detect_features\<close> is the resize, preprocess and feature call of lines 182-189 and
    213-219; \<open>feature_difference cur prev\<close> is \<^verbatim>\<open>1.0 - cosine_sim\<close> of lines 192-197;
    \<open>ssim_difference prev cur\<close> is \<^verbatim>\<open>1.0 - ssim_score\<close> of lines 224-233. The detector has
    no exception handler, so these are total.
  \<^item> \<open>dedup_features\<close> is the body of the \<^verbatim>\<open>try\<close> of lines 399-417 (\<open>None\<close>: it raised);
    \<open>dedup_cosine cur uniq\<close> is \<^verbatim>\<open>np.dot\<close> of line 473 and \<open>dedup_ssim uniq cur\<close> the
    grayscale, resize and \<^verbatim>\<open>ssim\<close> calls of lines 489-505 (\<open>None\<close>: an exception, caught
    at lines 481 and 512).
  \<^item> \<open>img_width\<close>, \<open>img_height\<close> read \<^verbatim>\<open>frame_rgb.shape\<close>.
\<close>

record ('img, 'feat) backend =
  tensorflow_available :: bool
  mobilenet_loads :: bool
  detect_features :: "'img \<Rightarrow> 'feat"
  feature_difference :: "'feat \<Rightarrow> 'feat \<Rightarrow> real"
  ssim_difference :: "'img \<Rightarrow> 'img \<Rightarrow> real"
  dedup_features :: "'img \<Rightarrow> 'feat option"
  dedup_cosine :: "'feat \<Rightarrow> 'feat \<Rightarrow> real option"
  dedup_ssim :: "'img \<Rightarrow> 'img \<Rightarrow> real option"
  img_width :: "'img \<Rightarrow> int"
  img_height :: "'img \<Rightarrow> int"

text \<open>
  The opened \<^verbatim>\<open>cv2.VideoCapture\<close>: whether it opened, the reported rate and frame count
  (which need not be the number of frames that decode), and the frames that
  \<^verbatim>\<open>cap.read()\<close> delivers, in order, before it reports the end.
\<close>

record 'img video =
  is_opened :: bool
  fps :: real
  frame_count_prop :: int
  decoded :: "'img list"

datatype error = ValueError

section \<open>The constructor\<close>

text \<open>
  Lines 44-76. \<open>frame_skip\<close> is clamped to at least 1; \<open>use_ml\<close> survives only when
  TensorFlow is there and the model loads.
\<close>

definition VideoProcessor_init ::
  "('img, 'feat) backend \<Rightarrow> real \<Rightarrow> int \<Rightarrow> bool \<Rightarrow> int \<Rightarrow> processor" where
  "VideoProcessor_init B ct mfi ml fskip =
     \<lparr>change_threshold = ct,
      min_frame_interval = mfi,
      frame_skip = max 1 fskip,
      use_ml = (if ml then (if \<not> tensorflow_available B then False else mobilenet_loads B)
                else False),
      feature_model_loaded = (ml \<and> tensorflow_available B \<and> mobilenet_loads B)\<rparr>"

section \<open>The scene boundary detector\<close>

text \<open>
  The local variables of \<^verbatim>\<open>extract_frames_with_changes\<close> (lines 119-125) and the
  dictionaries passed to the callback so far. \<^verbatim>\<open>last_change_frame\<close> is written and never
  read, and is left out.
\<close>

record ('img, 'feat) scan_state =
  frames :: "'img frame list"
  prev_frame_rgb :: "'img option"
  prev_frame_features :: "'feat option"
  frame_count :: int
  processed_frame_count :: int
  last_change_processed_frame :: int
  emitted :: "snapshot list"

definition initializing_snapshot :: "'img video \<Rightarrow> snapshot" where
  "initializing_snapshot v =
     [(''stage'', PStr ''initializing''), (''current_frame'', PInt 0),
      (''total_frames'', PInt (frame_count_prop v)), (''frames_detected'', PInt 0)]"

definition stopped_snapshot :: "'img video \<Rightarrow> ('img, 'feat) scan_state \<Rightarrow> snapshot" where
  "stopped_snapshot v st =
     [(''stage'', PStr ''stopped''), (''current_frame'', PInt (frame_count st)),
      (''total_frames'', PInt (frame_count_prop v)),
      (''frames_detected'', PInt (int (length (frames st)))),
      (''stopped'', PBool True),
      (''message'', PStr ''Processing stopped by user. You can continue processing to extract more frames.'')]"

definition extracting_snapshot :: "'img video \<Rightarrow> ('img, 'feat) scan_state \<Rightarrow> snapshot" where
  "extracting_snapshot v st =
     [(''stage'', PStr ''extracting''), (''current_frame'', PInt (frame_count st)),
      (''total_frames'', PInt (frame_count_prop v)),
      (''frames_detected'', PInt (int (length (frames st))))]"

definition completed_snapshot :: "'img video \<Rightarrow> ('img, 'feat) scan_state \<Rightarrow> snapshot" where
  "completed_snapshot v st =
     [(''stage'', PStr ''completed''), (''current_frame'', PInt (frame_count_prop v)),
      (''total_frames'', PInt (frame_count_prop v)),
      (''frames_detected'', PInt (int (length (frames st))))]"

text \<open>Line 169.\<close>

definition min_processed_interval :: "processor \<Rightarrow> int" where
  "min_processed_interval P = max 1 (min_frame_interval P div frame_skip P)"

text \<open>
  Lines 176-247: the scene change test. It returns \<^verbatim>\<open>is_scene_change\<close> and the state
  with the comparison point replaced by the current frame.
\<close>

definition detect_change ::
  "processor \<Rightarrow> ('img, 'feat) backend \<Rightarrow> ('img, 'feat) scan_state \<Rightarrow> 'img \<Rightarrow>
     bool \<times> ('img, 'feat) scan_state" where
  "detect_change P B st frame_rgb =
     (if use_ml P \<and> feature_model_loaded P then
        (case prev_frame_features st of
           Some prev \<Rightarrow>
             (let current_features = detect_features B frame_rgb;
                  difference = feature_difference B current_features prev
              in if difference > change_threshold P
                 then (True, st\<lparr>last_change_processed_frame := processed_frame_count st,
                                prev_frame_features := Some current_features\<rparr>)
                 else (False, st\<lparr>prev_frame_features := Some current_features\<rparr>))
         | None \<Rightarrow>
             (True, st\<lparr>last_change_processed_frame := processed_frame_count st,
                       prev_frame_features := Some (detect_features B frame_rgb)\<rparr>))
      else
        (case prev_frame_rgb st of
           Some prev \<Rightarrow>
             (let difference = ssim_difference B prev frame_rgb
              in if difference > change_threshold P
                 then (True, st\<lparr>last_change_processed_frame := processed_frame_count st,
                                prev_frame_rgb := Some frame_rgb\<rparr>)
                 else (False, st\<lparr>prev_frame_rgb := Some frame_rgb\<rparr>))
         | None \<Rightarrow>
             (True, st\<lparr>last_change_processed_frame := processed_frame_count st,
                       prev_frame_rgb := Some frame_rgb\<rparr>)))"

text \<open>Lines 250-265: the frame dictionary appended to \<^verbatim>\<open>frames\<close>.\<close>

definition store_frame ::
  "('img, 'feat) backend \<Rightarrow> 'img video \<Rightarrow> ('img, 'feat) scan_state \<Rightarrow> 'img \<Rightarrow>
     ('img, 'feat) scan_state" where
  "store_frame B v st frame_rgb =
     st\<lparr>frames := frames st @
          [\<lparr>frame_number = frame_count st,
            timestamp = (if fps v > 0 then real_of_int (frame_count st) / fps v else 0),
            image_entry = Some frame_rgb,
            width = img_width B frame_rgb,
            height = img_height B frame_rgb\<rparr>]\<rparr>"

text \<open>
  Lines 158-293: the body of the \<^verbatim>\<open>while\<close> loop after a successful \<^verbatim>\<open>cap.read()\<close>.
  \<open>cb\<close> says that a \<^verbatim>\<open>progress_callback\<close> was passed; \<open>half_second k\<close> stands for the
  wall-clock test \<^verbatim>\<open>time_since_last_update >= 0.5\<close> in the iteration that advances
  \<^verbatim>\<open>frame_count\<close> to \<open>k\<close>.
\<close>

definition process_frame ::
  "processor \<Rightarrow> ('img, 'feat) backend \<Rightarrow> 'img video \<Rightarrow> bool \<Rightarrow> (int \<Rightarrow> bool) \<Rightarrow>
     ('img, 'feat) scan_state \<Rightarrow> 'img \<Rightarrow> ('img, 'feat) scan_state" where
  "process_frame P B v cb half_second st frame_rgb =
     (if frame_count st mod frame_skip P \<noteq> 0
      then st\<lparr>frame_count := frame_count st + 1\<rparr>
      else
        (let st1 = st\<lparr>processed_frame_count := processed_frame_count st + 1\<rparr>;
             frames_since_last_change =
               processed_frame_count st1 - last_change_processed_frame st1 - 1
         in if frames_since_last_change < min_processed_interval P
            then st1\<lparr>frame_count := frame_count st1 + 1\<rparr>
            else
              (let (is_scene_change, st2) = detect_change P B st1 frame_rgb;
                   st3 = (if is_scene_change then store_frame B v st2 frame_rgb else st2);
                   st4 = st3\<lparr>frame_count := frame_count st3 + 1\<rparr>
               in if (processed_frame_count st4 mod 10 = 0 \<or> half_second (frame_count st4)) \<and> cb
                  then st4\<lparr>emitted := emitted st4 @ [extracting_snapshot v st4]\<rparr>
                  else st4)))"

text \<open>
  Line 134: \<^verbatim>\<open>stop_check and stop_check()\<close>. The callable takes no argument; one poll is
  made per loop iteration, when \<^verbatim>\<open>frame_count\<close> is \<open>k\<close>, and \<open>answers k\<close> is what that
  poll returns.
\<close>

definition stop_requested ::
  "(int \<Rightarrow> bool) option \<Rightarrow> ('img, 'feat) scan_state \<Rightarrow> bool" where
  "stop_requested stop_check st =
     (case stop_check of None \<Rightarrow> False | Some answers \<Rightarrow> answers (frame_count st))"

text \<open>
  Lines 132-156: the \<^verbatim>\<open>while True\<close> loop over the frames still to be read. The result is
  the state at the exit and whether the exit was the \<^verbatim>\<open>return\<close> of line 152 rather than
  the \<^verbatim>\<open>break\<close> of line 156.
\<close>

fun read_loop ::
  "processor \<Rightarrow> ('img, 'feat) backend \<Rightarrow> 'img video \<Rightarrow> bool \<Rightarrow> (int \<Rightarrow> bool) option \<Rightarrow>
     (int \<Rightarrow> bool) \<Rightarrow> ('img, 'feat) scan_state \<Rightarrow> 'img list \<Rightarrow>
     bool \<times> ('img, 'feat) scan_state" where
  "read_loop P B v cb stop_check half_second st [] =
     (if stop_requested stop_check st then (True, st) else (False, st))"
| "read_loop P B v cb stop_check half_second st (frame_rgb # rest) =
     (if stop_requested stop_check st then (True, st)
      else read_loop P B v cb stop_check half_second
             (process_frame P B v cb half_second st frame_rgb) rest)"

text \<open>
  What a call leaves behind: the returned list, the dictionaries the callback received,
  in order, and the value assigned to \<^verbatim>\<open>self.frames\<close> (line 315; not reached on a stop).
\<close>

record 'img extraction =
  candidates :: "'img frame list"
  progress :: "snapshot list"
  self_frames :: "'img frame list option"

definition initial_scan_state ::
  "processor \<Rightarrow> 'img video \<Rightarrow> bool \<Rightarrow> ('img, 'feat) scan_state" where
  "initial_scan_state P v cb =
     \<lparr>frames = [], prev_frame_rgb = None, prev_frame_features = None,
      frame_count = 0, processed_frame_count = 0,
      last_change_processed_frame = - min_frame_interval P,
      emitted = (if cb then [initializing_snapshot v] else [])\<rparr>"

definition extract_frames_with_changes ::
  "processor \<Rightarrow> ('img, 'feat) backend \<Rightarrow> 'img video \<Rightarrow> bool \<Rightarrow> (int \<Rightarrow> bool) option \<Rightarrow>
     (int \<Rightarrow> bool) \<Rightarrow> error + 'img extraction" where
  "extract_frames_with_changes P B v cb stop_check half_second =
     (if \<not> is_opened v then Inl ValueError
      else
        (let (stopped, st) =
               read_loop P B v cb stop_check half_second
                 (initial_scan_state P v cb :: ('img, 'feat) scan_state) (decoded v)
         in if stopped
            then Inr \<lparr>candidates = frames st,
                      progress = emitted st @ (if cb then [stopped_snapshot v st] else []),
                      self_frames = None\<rparr>
            else Inr \<lparr>candidates = frames st,
                      progress = emitted st @ (if cb then [completed_snapshot v st] else []),
                      self_frames = Some (frames st)\<rparr>))"

section \<open>The deduplicator\<close>

text \<open>
  The two dictionaries filled at lines 382-422, keyed by the position in \<^verbatim>\<open>frames\<close>.
  A position is missing from both when the frame has no \<^verbatim>\<open>'image'\<close> key; the feature entry
  is \<open>Some None\<close> when it is stored as Python's \<^verbatim>\<open>None\<close>.
\<close>

record ('img, 'feat) comparison_data =
  frame_features_dict :: "nat \<rightharpoonup> 'feat option"
  frame_images_dict :: "nat \<rightharpoonup> 'img"

text \<open>Lines 385-422: one iteration of \<^verbatim>\<open>for idx, frame in enumerate(frames)\<close>.\<close>

definition prepare_frame ::
  "processor \<Rightarrow> ('img, 'feat) backend \<Rightarrow> nat \<times> 'img frame \<Rightarrow>
     ('img, 'feat) comparison_data \<Rightarrow> ('img, 'feat) comparison_data" where
  "prepare_frame P B entry d =
     (case entry of (idx, frame) \<Rightarrow>
        (case image_entry frame of
           None \<Rightarrow> d
         | Some frame_array \<Rightarrow>
             (let d1 = d\<lparr>frame_images_dict := (frame_images_dict d)(idx \<mapsto> frame_array)\<rparr>
              in if use_ml P \<and> feature_model_loaded P \<and> tensorflow_available B
                 then d1\<lparr>frame_features_dict :=
                          (frame_features_dict d1)(idx \<mapsto> dedup_features B frame_array)\<rparr>
                 else d1\<lparr>frame_features_dict := (frame_features_dict d1)(idx \<mapsto> None)\<rparr>)))"

definition prepare_comparison_data ::
  "processor \<Rightarrow> ('img, 'feat) backend \<Rightarrow> 'img frame list \<Rightarrow> ('img, 'feat) comparison_data" where
  "prepare_comparison_data P B frames_in =
     fold (prepare_frame P B) (enumerate 0 frames_in)
       \<lparr>frame_features_dict = Map.empty, frame_images_dict = Map.empty\<rparr>"

text \<open>\<^verbatim>\<open>frame_features_dict.get(idx)\<close>: a missing key and a stored \<^verbatim>\<open>None\<close> read alike.\<close>

definition features_get :: "(nat \<rightharpoonup> 'feat option) \<Rightarrow> nat \<Rightarrow> 'feat option" where
  "features_get m k = (case m k of None \<Rightarrow> None | Some entry \<Rightarrow> entry)"

text \<open>
  Lines 456-460: the position of the first frame of \<^verbatim>\<open>frames\<close> that equals the kept
  frame. \<^verbatim>\<open>f == unique_frame\<close> compares two dictionaries key by key; on the dictionaries
  represented by \<open>'img frame\<close> (integers, a float, and a \<^verbatim>\<open>PIL.Image\<close> when the
  \<^verbatim>\<open>'image'\<close> key is there) every such comparison returns a truth value, and the two
  dictionaries are equal exactly when the two records are.
\<close>

fun unique_list_idx :: "'a list \<Rightarrow> 'a \<Rightarrow> nat option" where
  "unique_list_idx [] u = None"
| "unique_list_idx (f # fs) u =
     (if f = u then Some 0 else map_option Suc (unique_list_idx fs u))"

text \<open>
  The variables of the review loop (lines 377, 425, 446), the dictionaries the callback
  received, and a ghost list \<open>compared\<close> of the pairs (candidate position, kept frame's
  position) on which \<^verbatim>\<open>np.dot\<close> or \<^verbatim>\<open>ssim\<close> was called.
\<close>

record 'img dedup_state =
  unique_frames :: "'img frame list"
  is_duplicate :: bool
  duplicates_removed :: int
  reports :: "snapshot list"
  compared :: "(nat \<times> nat) list"

text \<open>
  Lines 470-484: the comparison on features. The first component says that the
  \<^verbatim>\<open>break\<close> of line 480 was taken.
\<close>

definition ml_compare ::
  "processor \<Rightarrow> ('img, 'feat) backend \<Rightarrow> real \<Rightarrow> nat \<Rightarrow> nat \<Rightarrow> 'feat option \<Rightarrow> 'feat option \<Rightarrow>
     'img dedup_state \<Rightarrow> bool \<times> 'img dedup_state" where
  "ml_compare P B similarity_threshold idx j current_features unique_features st =
     (if use_ml P \<and> current_features \<noteq> None \<and> unique_features \<noteq> None then
        (case (current_features, unique_features) of
           (Some cf, Some uf) \<Rightarrow>
             (let st1 = st\<lparr>compared := compared st @ [(idx, j)]\<rparr>
              in case dedup_cosine B cf uf of
                   Some similarity \<Rightarrow>
                     if similarity \<ge> similarity_threshold
                     then (True, st1\<lparr>is_duplicate := True,
                                     duplicates_removed := duplicates_removed st1 + 1\<rparr>)
                     else (False, st1)
                 | None \<Rightarrow> (False, st1))
         | _ \<Rightarrow> (False, st))
      else (False, st))"

text \<open>Lines 487-513: the comparison by SSIM; again with the \<^verbatim>\<open>break\<close> of line 511.\<close>

definition ssim_compare ::
  "('img, 'feat) backend \<Rightarrow> real \<Rightarrow> nat \<Rightarrow> nat \<Rightarrow> 'img option \<Rightarrow> 'img option \<Rightarrow>
     'img dedup_state \<Rightarrow> bool \<times> 'img dedup_state" where
  "ssim_compare B similarity_threshold idx j current_array unique_array st =
     (if \<not> is_duplicate st \<and> current_array \<noteq> None \<and> unique_array \<noteq> None then
        (case (current_array, unique_array) of
           (Some ca, Some ua) \<Rightarrow>
             (let st1 = st\<lparr>compared := compared st @ [(idx, j)]\<rparr>
              in case dedup_ssim B ua ca of
                   Some ssim_score \<Rightarrow>
                     if ssim_score \<ge> similarity_threshold
                     then (True, st1\<lparr>is_duplicate := True,
                                     duplicates_removed := duplicates_removed st1 + 1\<rparr>)
                     else (False, st1)
                 | None \<Rightarrow> (False, st1))
         | _ \<Rightarrow> (False, st))
      else (False, st))"

text \<open>Lines 454-513: the body of \<^verbatim>\<open>for unique_frame_idx, unique_frame in enumerate(unique_frames)\<close>.\<close>

definition compare_with_unique ::
  "processor \<Rightarrow> ('img, 'feat) backend \<Rightarrow> real \<Rightarrow> 'img frame list \<Rightarrow>
     ('img, 'feat) comparison_data \<Rightarrow> nat \<Rightarrow> 'img dedup_state \<Rightarrow> 'img frame \<Rightarrow>
     bool \<times> 'img dedup_state" where
  "compare_with_unique P B similarity_threshold frames_in d idx st unique_frame =
     (case unique_list_idx frames_in unique_frame of
        None \<Rightarrow> (False, st)
      | Some j \<Rightarrow>
          (let current_features = features_get (frame_features_dict d) idx;
               current_array = frame_images_dict d idx;
               unique_features = features_get (frame_features_dict d) j;
               unique_array = frame_images_dict d j;
               (broke, st1) =
                 ml_compare P B similarity_threshold idx j current_features unique_features st
           in if broke then (True, st1)
              else ssim_compare B similarity_threshold idx j current_array unique_array st1))"

text \<open>Lines 453-513: the loop over the kept frames, left at the first \<^verbatim>\<open>break\<close>.\<close>

fun compare_loop ::
  "processor \<Rightarrow> ('img, 'feat) backend \<Rightarrow> real \<Rightarrow> 'img frame list \<Rightarrow>
     ('img, 'feat) comparison_data \<Rightarrow> nat \<Rightarrow> 'img dedup_state \<Rightarrow> 'img frame list \<Rightarrow>
     'img dedup_state" where
  "compare_loop P B similarity_threshold frames_in d idx st [] = st"
| "compare_loop P B similarity_threshold frames_in d idx st (unique_frame # rest) =
     (case compare_with_unique P B similarity_threshold frames_in d idx st unique_frame of
        (True, st1) \<Rightarrow> st1
      | (False, st1) \<Rightarrow> compare_loop P B similarity_threshold frames_in d idx st1 rest)"

definition review_snapshot :: "'img frame list \<Rightarrow> nat \<Rightarrow> 'img dedup_state \<Rightarrow> snapshot" where
  "review_snapshot frames_in idx st =
     [(''stage'', PStr ''removing_duplicates''), (''current_frame'', PInt (int idx)),
      (''total_frames'', PInt (int (length frames_in))),
      (''frames_detected'', PInt (int (length frames_in))),
      (''frames_after_dedup'', PInt (int (length (unique_frames st))))]"

text \<open>Lines 428-517: one iteration of \<^verbatim>\<open>for idx in range(1, len(frames))\<close>.\<close>

definition review_frame ::
  "processor \<Rightarrow> ('img, 'feat) backend \<Rightarrow> real \<Rightarrow> bool \<Rightarrow> 'img frame list \<Rightarrow>
     ('img, 'feat) comparison_data \<Rightarrow> nat \<Rightarrow> 'img dedup_state \<Rightarrow> 'img dedup_state" where
  "review_frame P B similarity_threshold cb frames_in d idx st =
     (let st1 = (if cb \<and> idx mod 10 = 0
                 then st\<lparr>reports := reports st @ [review_snapshot frames_in idx st]\<rparr>
                 else st);
          current_frame = frames_in ! idx
      in case image_entry current_frame of
           None \<Rightarrow> st1
         | Some current_image \<Rightarrow>
             (let st2 = compare_loop P B similarity_threshold frames_in d idx
                          (st1\<lparr>is_duplicate := False\<rparr>) (unique_frames st1)
              in if \<not> is_duplicate st2
                 then st2\<lparr>unique_frames := unique_frames st2 @ [current_frame]\<rparr>
                 else st2))"

text \<open>
  What a call leaves behind: the returned list, the dictionaries the callback received
  and the ghost list of compared pairs.
\<close>

record 'img dedup_result =
  returned :: "'img frame list"
  dedup_progress :: "snapshot list"
  dedup_compared :: "(nat \<times> nat) list"

definition first_review_snapshot :: "'img frame list \<Rightarrow> snapshot" where
  "first_review_snapshot frames_in =
     [(''stage'', PStr ''removing_duplicates''), (''current_frame'', PInt 0),
      (''total_frames'', PInt (int (length frames_in))),
      (''frames_detected'', PInt (int (length frames_in))),
      (''frames_after_dedup'', PInt 0)]"

definition last_review_snapshot :: "'img frame list \<Rightarrow> 'img dedup_state \<Rightarrow> snapshot" where
  "last_review_snapshot frames_in st =
     [(''stage'', PStr ''removing_duplicates''),
      (''current_frame'', PInt (int (length frames_in))),
      (''total_frames'', PInt (int (length frames_in))),
      (''frames_detected'', PInt (int (length frames_in))),
      (''frames_after_dedup'', PInt (int (length (unique_frames st)))),
      (''duplicates_removed'', PInt (duplicates_removed st))]"

definition review_all ::
  "processor \<Rightarrow> ('img, 'feat) backend \<Rightarrow> real \<Rightarrow> bool \<Rightarrow> 'img frame list \<Rightarrow> 'img dedup_state" where
  "review_all P B similarity_threshold cb frames_in =
     fold (review_frame P B similarity_threshold cb frames_in
             (prepare_comparison_data P B frames_in))
       [1..<length frames_in]
       \<lparr>unique_frames = [frames_in ! 0], is_duplicate = False, duplicates_removed = 0,
        reports = (if cb then [first_review_snapshot frames_in] else []),
        compared = []\<rparr>"

text \<open>Lines 362-532. \<open>cb\<close> says that a \<^verbatim>\<open>progress_callback\<close> was passed.\<close>

definition remove_duplicate_frames ::
  "processor \<Rightarrow> ('img, 'feat) backend \<Rightarrow> 'img frame list \<Rightarrow> real \<Rightarrow> bool \<Rightarrow> 'img dedup_result" where
  "remove_duplicate_frames P B frames_in similarity_threshold cb =
     (if frames_in = [] \<or> length frames_in \<le> 1
      then \<lparr>returned = frames_in, dedup_progress = [], dedup_compared = []\<rparr>
      else
        (let st = review_all P B similarity_threshold cb frames_in
         in \<lparr>returned = unique_frames st,
             dedup_progress =
               reports st @ (if cb then [last_review_snapshot frames_in st] else []),
             dedup_compared = compared st\<rparr>))"

section \<open>Notions used to state the properties\<close>

text \<open>
  With \<^verbatim>\<open>frame_skip\<close> \<open>k\<close> the processed frames are the decoded frames \<open>0, k, 2k, ...\<close>;
  \<open>processed_index\<close> is the position of a processed frame in that sequence, and two
  candidates are \<open>well_spaced\<close> when at least \<open>min_processed_interval\<close> processed frames
  lie strictly between them.
\<close>

definition processed_index :: "processor \<Rightarrow> 'img frame \<Rightarrow> int" where
  "processed_index P f = frame_number f div frame_skip P"

definition well_spaced :: "processor \<Rightarrow> 'img frame \<Rightarrow> 'img frame \<Rightarrow> bool" where
  "well_spaced P a b =
     (min_processed_interval P \<le> processed_index P b - processed_index P a - 1)"

text \<open>The loop invariant of the detector.\<close>

definition scan_inv :: "processor \<Rightarrow> ('img, 'feat) scan_state \<Rightarrow> bool" where
  "scan_inv P st =
     ((processed_frame_count st - 1) * frame_skip P < frame_count st \<and>
      frame_count st \<le> processed_frame_count st * frame_skip P \<and>
      (\<forall>f \<in> set (frames st). frame_number f mod frame_skip P = 0 \<and> frame_number f < frame_count st) \<and>
      (frames st \<noteq> [] \<longrightarrow>
         last_change_processed_frame st = processed_index P (last (frames st)) + 1) \<and>
      successively (well_spaced P) (frames st) \<and>
      sorted_wrt (<) (map frame_number (frames st)))"


text \<open>
  The deduplicator, read frame by frame. \<open>features_of\<close> is the entry that line 417, 420 or
  422 stores for a frame; \<open>cosine_reaches\<close> and \<open>ssim_reaches\<close> say that the comparison of
  lines 470-480, respectively 487-511, is made, succeeds and reaches the threshold;
  \<open>pair_matches c u\<close> that candidate \<open>c\<close> is found a duplicate of the kept frame \<open>u\<close>, and
  \<open>position_matches\<close> the same through the dictionaries and positions the code uses.
  \<open>discards\<close> is the condition under which a candidate is not appended to the kept list,
  and \<open>greedy\<close> the kept list that results from a discard condition.
\<close>

definition features_of :: "processor \<Rightarrow> ('img, 'feat) backend \<Rightarrow> 'img frame \<Rightarrow> 'feat option" where
  "features_of P B f =
     (case image_entry f of
        None \<Rightarrow> None
      | Some a \<Rightarrow> if use_ml P \<and> feature_model_loaded P \<and> tensorflow_available B
                  then dedup_features B a else None)"

definition cosine_reaches :: "('img, 'feat) backend \<Rightarrow> real \<Rightarrow> 'feat option \<Rightarrow> 'feat option \<Rightarrow> bool" where
  "cosine_reaches B thr cf uf =
     (case cf of None \<Rightarrow> False
      | Some c \<Rightarrow> (case uf of None \<Rightarrow> False
          | Some u \<Rightarrow> (case dedup_cosine B c u of None \<Rightarrow> False | Some s \<Rightarrow> thr \<le> s)))"

definition ssim_reaches :: "('img, 'feat) backend \<Rightarrow> real \<Rightarrow> 'img option \<Rightarrow> 'img option \<Rightarrow> bool" where
  "ssim_reaches B thr ca ua =
     (case ca of None \<Rightarrow> False
      | Some c \<Rightarrow> (case ua of None \<Rightarrow> False
          | Some u \<Rightarrow> (case dedup_ssim B u c of None \<Rightarrow> False | Some s \<Rightarrow> thr \<le> s)))"

definition pair_matches ::
  "processor \<Rightarrow> ('img, 'feat) backend \<Rightarrow> real \<Rightarrow> 'img frame \<Rightarrow> 'img frame \<Rightarrow> bool" where
  "pair_matches P B thr c u =
     ((use_ml P \<and> cosine_reaches B thr (features_of P B c) (features_of P B u)) \<or>
      ssim_reaches B thr (image_entry c) (image_entry u))"

definition position_matches ::
  "processor \<Rightarrow> ('img, 'feat) backend \<Rightarrow> real \<Rightarrow> 'img frame list \<Rightarrow>
     ('img, 'feat) comparison_data \<Rightarrow> nat \<Rightarrow> 'img frame \<Rightarrow> bool" where
  "position_matches P B thr frames_in d idx u =
     (case unique_list_idx frames_in u of
        None \<Rightarrow> False
      | Some j \<Rightarrow>
          (use_ml P \<and> cosine_reaches B thr (features_get (frame_features_dict d) idx)
                        (features_get (frame_features_dict d) j)) \<or>
          ssim_reaches B thr (frame_images_dict d idx) (frame_images_dict d j))"

definition discards ::
  "processor \<Rightarrow> ('img, 'feat) backend \<Rightarrow> real \<Rightarrow> 'img frame \<Rightarrow> 'img frame list \<Rightarrow> bool" where
  "discards P B thr c kept =
     (image_entry c = None \<or> (\<exists>u \<in> set kept. pair_matches P B thr c u))"

fun greedy :: "('a \<Rightarrow> 'a list \<Rightarrow> bool) \<Rightarrow> 'a list \<Rightarrow> 'a list \<Rightarrow> 'a list" where
  "greedy dup kept [] = kept"
| "greedy dup kept (c # cs) =
     (if dup c kept then greedy dup kept cs else greedy dup (kept @ [c]) cs)"

text \<open>
  The deduplicator as C2 and section 4.3 of the specification word it:
  \<open>configured_similarity\<close> is the similarity of the one strategy chosen at construction
  (the cosine of the cached features when \<^verbatim>\<open>use_ml\<close> is set, SSIM otherwise; \<open>None\<close> when it
  cannot be computed), a candidate is a \<open>claimed_duplicate\<close> when some kept frame reaches the
  threshold under it, and \<open>deduplicate_as_claimed\<close> seeds the kept list with the first
  candidate and appends every later candidate that is not a claimed duplicate.
\<close>

definition configured_similarity ::
  "processor \<Rightarrow> ('img, 'feat) backend \<Rightarrow> 'img frame \<Rightarrow> 'img frame \<Rightarrow> real option" where
  "configured_similarity P B c u =
     (if use_ml P
      then (case features_of P B c of
              None \<Rightarrow> None
            | Some cf \<Rightarrow> (case features_of P B u of
                            None \<Rightarrow> None | Some uf \<Rightarrow> dedup_cosine B cf uf))
      else (case image_entry c of
              None \<Rightarrow> None
            | Some ca \<Rightarrow> (case image_entry u of
                            None \<Rightarrow> None | Some ua \<Rightarrow> dedup_ssim B ua ca)))"

definition claimed_duplicate ::
  "processor \<Rightarrow> ('img, 'feat) backend \<Rightarrow> real \<Rightarrow> 'img frame \<Rightarrow> 'img frame list \<Rightarrow> bool" where
  "claimed_duplicate P B thr c kept =
     (\<exists>u \<in> set kept. case configured_similarity P B c u of
                         None \<Rightarrow> False | Some s \<Rightarrow> thr \<le> s)"

definition deduplicate_as_claimed ::
  "processor \<Rightarrow> ('img, 'feat) backend \<Rightarrow> real \<Rightarrow> 'img frame list \<Rightarrow> 'img frame list" where
  "deduplicate_as_claimed P B thr candidates_in =
     (case candidates_in of
        [] \<Rightarrow> []
      | first # others \<Rightarrow> greedy (claimed_duplicate P B thr) [first] others)"

text \<open>
  The kept list with the discard condition of the code, \<open>discards\<close>: no \<^verbatim>\<open>'image'\<close> key,
  or a kept frame reached by the cosine comparison or by the SSIM comparison.
\<close>

definition kept_frames ::
  "processor \<Rightarrow> ('img, 'feat) backend \<Rightarrow> real \<Rightarrow> 'img frame list \<Rightarrow> 'img frame list" where
  "kept_frames P B thr candidates_in =
     (case candidates_in of
        [] \<Rightarrow> []
      | first # others \<Rightarrow> greedy (discards P B thr) [first] others)"

text \<open>
  The comparisons of one candidate. \<open>until_first hit us\<close> is the part of \<open>us\<close> that a scan in
  order reads when it stops at the first element that is a hit. \<open>pair_comparisons\<close> are the
  pairs that the candidate at position \<open>idx\<close> and the kept frame \<open>u\<close> contribute to the list
  of compared pairs: one for the cosine comparison when it is made, and one for the SSIM
  comparison when it is made (the cosine comparison did not reach the threshold and both
  frames have an image); \<open>position_comparisons\<close> is the same through the dictionaries.
\<close>

fun until_first :: "('a \<Rightarrow> bool) \<Rightarrow> 'a list \<Rightarrow> 'a list" where
  "until_first hit [] = []"
| "until_first hit (u # us) = (if hit u then [u] else u # until_first hit us)"

definition position_comparisons ::
  "processor \<Rightarrow> ('img, 'feat) backend \<Rightarrow> real \<Rightarrow> 'img frame list \<Rightarrow>
     ('img, 'feat) comparison_data \<Rightarrow> nat \<Rightarrow> 'img frame \<Rightarrow> (nat \<times> nat) list" where
  "position_comparisons P B thr fs d idx u =
     (case unique_list_idx fs u of
        None \<Rightarrow> []
      | Some j \<Rightarrow>
          (if use_ml P \<and> features_get (frame_features_dict d) idx \<noteq> None \<and>
              features_get (frame_features_dict d) j \<noteq> None
           then [(idx, j)] else []) @
          (if \<not> (use_ml P \<and> cosine_reaches B thr (features_get (frame_features_dict d) idx)
                               (features_get (frame_features_dict d) j)) \<and>
              frame_images_dict d idx \<noteq> None \<and> frame_images_dict d j \<noteq> None
           then [(idx, j)] else []))"

definition pair_comparisons ::
  "processor \<Rightarrow> ('img, 'feat) backend \<Rightarrow> real \<Rightarrow> 'img frame list \<Rightarrow> nat \<Rightarrow> 'img frame \<Rightarrow>
     (nat \<times> nat) list" where
  "pair_comparisons P B thr fs idx u =
     (case unique_list_idx fs u of
        None \<Rightarrow> []
      | Some j \<Rightarrow>
          (if use_ml P \<and> features_of P B (fs ! idx) \<noteq> None \<and> features_of P B u \<noteq> None
           then [(idx, j)] else []) @
          (if \<not> (use_ml P \<and> cosine_reaches B thr (features_of P B (fs ! idx)) (features_of P B u)) \<and>
              image_entry (fs ! idx) \<noteq> None \<and> image_entry u \<noteq> None
           then [(idx, j)] else []))"

text \<open>
  The pass as the amended C2 words it, on the kept list and the list of compared pairs:
  a candidate without the \<^verbatim>\<open>'image'\<close> key changes neither; any other candidate is compared
  with the kept frames in order until the first match, and is appended to the kept list
  when none matches.
\<close>

definition amended_step ::
  "processor \<Rightarrow> ('img, 'feat) backend \<Rightarrow> real \<Rightarrow> 'img frame list \<Rightarrow> nat \<Rightarrow>
     'img frame list \<times> (nat \<times> nat) list \<Rightarrow> 'img frame list \<times> (nat \<times> nat) list" where
  "amended_step P B thr fs idx state =
     (case state of (kept, pairs) \<Rightarrow>
        if image_entry (fs ! idx) = None then (kept, pairs)
        else (if \<exists>u \<in> set kept. pair_matches P B thr (fs ! idx) u
              then kept else kept @ [fs ! idx],
              pairs @ concat (map (pair_comparisons P B thr fs idx)
                                  (until_first (pair_matches P B thr (fs ! idx)) kept))))"

definition amended_pass ::
  "processor \<Rightarrow> ('img, 'feat) backend \<Rightarrow> real \<Rightarrow> 'img frame list \<Rightarrow>
     'img frame list \<times> (nat \<times> nat) list" where
  "amended_pass P B thr fs =
     (if length fs \<le> 1 then (fs, [])
      else fold (amended_step P B thr fs) [1..<length fs] ([fs ! 0], []))"


text \<open>Every pair compared so far pairs a candidate with a frame of the kept list.\<close>

definition compared_with_kept :: "'img frame list \<Rightarrow> 'img dedup_state \<Rightarrow> bool" where
  "compared_with_kept fs st =
     (\<forall>p \<in> set (compared st). snd p < length fs \<and> fs ! snd p \<in> set (unique_frames st))"

text \<open>
  Neither comparison of a pair yields a score: the cosine comparison is not made (no
  \<^verbatim>\<open>use_ml\<close>, or no features for one of the frames) or raises, and the SSIM comparison is
  not made (no image for one of the frames) or raises.
\<close>

definition both_strategies_fail ::
  "processor \<Rightarrow> ('img, 'feat) backend \<Rightarrow> 'img frame \<Rightarrow> 'img frame \<Rightarrow> bool" where
  "both_strategies_fail P B c u =
     ((\<not> use_ml P \<or>
       (case features_of P B c of
          None \<Rightarrow> True
        | Some cf \<Rightarrow> (case features_of P B u of
                        None \<Rightarrow> True | Some uf \<Rightarrow> dedup_cosine B cf uf = None))) \<and>
      (case image_entry c of
         None \<Rightarrow> True
       | Some ca \<Rightarrow> (case image_entry u of
                       None \<Rightarrow> True | Some ua \<Rightarrow> dedup_ssim B ua ca = None)))"

text \<open>The part of the detector's invariant that does not depend on \<^verbatim>\<open>frame_skip\<close>.\<close>

definition increasing_so_far :: "('img, 'feat) scan_state \<Rightarrow> bool" where
  "increasing_so_far st =
     (sorted_wrt (<) (map frame_number (frames st)) \<and>
      (\<forall>f \<in> set (frames st). frame_number f < frame_count st))"

text \<open>The state without the callback's record: what the next iteration depends on.\<close>

definition core :: "('img, 'feat) scan_state \<Rightarrow> ('img, 'feat) scan_state" where
  "core st = st\<lparr>emitted := []\<rparr>"

text \<open>
  A test backend: images and feature vectors are numbers, two images are identical when
  they are the same number and completely different otherwise. TensorFlow is absent.
\<close>

definition still_backend :: "(nat, nat) backend" where
  "still_backend =
     \<lparr>tensorflow_available = False, mobilenet_loads = False,
      detect_features = (\<lambda>a. a),
      feature_difference = (\<lambda>a b. if a = b then 0 else 1),
      ssim_difference = (\<lambda>a b. if a = b then 0 else 1),
      dedup_features = (\<lambda>a. Some a),
      dedup_cosine = (\<lambda>a b. Some (if a = b then 1 else 0)),
      dedup_ssim = (\<lambda>a b. Some (if a = b then 1 else 0)),
      img_width = (\<lambda>a. 4), img_height = (\<lambda>a. 3)\<rparr>"

definition clip :: "nat list \<Rightarrow> nat video" where
  "clip fs = \<lparr>is_opened = True, fps = 1, frame_count_prop = int (length fs), decoded = fs\<rparr>"

text \<open>
  Test frames and a backend whose similarity is a table on numbered images: image 1 is
  0.9 similar to image 0, images 2 and 3 are 0.99 similar to image 1, and every other
  pair is 0 similar. \<open>blank\<close> is a frame dictionary without the \<^verbatim>\<open>'image'\<close> key.
\<close>

definition shot :: "int \<Rightarrow> nat \<Rightarrow> nat frame" where
  "shot n a = \<lparr>frame_number = n, timestamp = real_of_int n, image_entry = Some a,
               width = 4, height = 3\<rparr>"

definition blank :: "int \<Rightarrow> nat frame" where
  "blank n = \<lparr>frame_number = n, timestamp = real_of_int n, image_entry = None,
               width = 4, height = 3\<rparr>"

definition near :: "nat \<Rightarrow> nat \<Rightarrow> real" where
  "near c u = (if c = 1 \<and> u = 0 then 0.9
               else if (c = 2 \<or> c = 3) \<and> u = 1 then 0.99 else 0)"

definition table_backend :: "(nat, nat) backend" where
  "table_backend =
     \<lparr>tensorflow_available = False, mobilenet_loads = False,
      detect_features = (\<lambda>a. a),
      feature_difference = (\<lambda>c p. 1 - near c p),
      ssim_difference = (\<lambda>p c. 1 - near c p),
      dedup_features = (\<lambda>a. Some a),
      dedup_cosine = (\<lambda>c u. Some (near c u)),
      dedup_ssim = (\<lambda>u c. Some (near c u)),
      img_width = (\<lambda>a. 4), img_height = (\<lambda>a. 3)\<rparr>"

definition ssim_only :: processor where
  "ssim_only = VideoProcessor_init table_backend 0.3 30 False 1"

text \<open>
  Two more test backends, with TensorFlow and the model present. In \<open>embedding_backend\<close>
  the embeddings of different images are orthogonal while image 1 is 0.97 similar to
  image 0 by SSIM. In \<open>failing_backend\<close> the feature extraction of image 1 raises, and both
  comparisons raise when the candidate is image 2. \<open>one_kept\<close> is the state of the review
  loop before its first iteration on a list that starts with \<open>shot 0 0\<close>.
\<close>

definition embedding_backend :: "(nat, nat) backend" where
  "embedding_backend =
     \<lparr>tensorflow_available = True, mobilenet_loads = True,
      detect_features = (\<lambda>a. a),
      feature_difference = (\<lambda>c p. if c = p then 0 else 1),
      ssim_difference = (\<lambda>p c. if c = p then 0 else 1),
      dedup_features = (\<lambda>a. Some a),
      dedup_cosine = (\<lambda>c u. Some (if c = u then 1 else 0)),
      dedup_ssim = (\<lambda>u c. Some (if c = 1 \<and> u = 0 then 0.97 else 0)),
      img_width = (\<lambda>a. 4), img_height = (\<lambda>a. 3)\<rparr>"

definition with_embedding :: processor where
  "with_embedding = VideoProcessor_init embedding_backend 0.3 30 True 1"

definition failing_backend :: "(nat, nat) backend" where
  "failing_backend =
     \<lparr>tensorflow_available = True, mobilenet_loads = True,
      detect_features = (\<lambda>a. a),
      feature_difference = (\<lambda>c p. 1 - near c p),
      ssim_difference = (\<lambda>p c. 1 - near c p),
      dedup_features = (\<lambda>a. if a = 1 then None else Some a),
      dedup_cosine = (\<lambda>c u. if c = 2 then None else Some (near c u)),
      dedup_ssim = (\<lambda>u c. if c = 2 then None else Some (near c u)),
      img_width = (\<lambda>a. 4), img_height = (\<lambda>a. 3)\<rparr>"

definition with_failures :: processor where
  "with_failures = VideoProcessor_init failing_backend 0.3 30 True 1"

definition one_kept :: "nat dedup_state" where
  "one_kept = \<lparr>unique_frames = [shot 0 0], is_duplicate = False, duplicates_removed = 0,
               reports = [], compared = []\<rparr>"

section \<open>The detector: one iteration and the loop invariant\<close>

lemma detect_change_keeps:
  assumes "detect_change P B st f = (b, st')"
  shows "frames st' = frames st" and "frame_count st' = frame_count st"
    and "processed_frame_count st' = processed_frame_count st"
    and "emitted st' = emitted st"
    and "last_change_processed_frame st' =
           (if b then processed_frame_count st else last_change_processed_frame st)"
  using assms
  by (auto simp: detect_change_def Let_def split: if_splits option.splits)

lemma process_frame_count [simp]:
  "frame_count (process_frame P B v cb hs st f) = frame_count st + 1"
  by (auto simp: process_frame_def store_frame_def Let_def dest: detect_change_keeps(2)
      split: prod.splits)

lemma process_frame_step:
  assumes "st' = process_frame P B v cb hs st f"
  shows "(frame_count st mod frame_skip P \<noteq> 0 \<and> frames st' = frames st \<and>
            processed_frame_count st' = processed_frame_count st \<and>
            last_change_processed_frame st' = last_change_processed_frame st)
       \<or> (frame_count st mod frame_skip P = 0 \<and> frames st' = frames st \<and>
            processed_frame_count st' = processed_frame_count st + 1 \<and>
            last_change_processed_frame st' = last_change_processed_frame st)
       \<or> (frame_count st mod frame_skip P = 0 \<and>
            (\<exists>x. frames st' = frames st @ [x] \<and> frame_number x = frame_count st) \<and>
            processed_frame_count st' = processed_frame_count st + 1 \<and>
            last_change_processed_frame st' = processed_frame_count st + 1 \<and>
            min_processed_interval P \<le> processed_frame_count st - last_change_processed_frame st)"
proof (cases "frame_count st mod frame_skip P \<noteq> 0")
  case True
  then show ?thesis by (simp add: assms process_frame_def)
next
  case skip: False
  let ?st1 = "st\<lparr>processed_frame_count := processed_frame_count st + 1\<rparr>"
  show ?thesis
  proof (cases "processed_frame_count st - last_change_processed_frame st < min_processed_interval P")
    case True
    with skip show ?thesis by (simp add: assms process_frame_def Let_def)
  next
    case far: False
    obtain b st2 where dc: "detect_change P B ?st1 f = (b, st2)"
      by (cases "detect_change P B ?st1 f")
    note keep = detect_change_keeps [OF dc]
    from skip far dc keep show ?thesis
      by (cases b) (auto simp: assms process_frame_def Let_def store_frame_def)
  qed
qed

lemma exact_multiple:
  fixes k c p :: int
  assumes "1 \<le> k" "c mod k = 0" "(p - 1) * k < c" "c \<le> p * k"
  shows "c div k = p" and "c = p * k"
proof -
  from assms(2) have c: "c = (c div k) * k" by auto
  from assms(3) c have "(p - 1) * k < (c div k) * k" by simp
  with assms(1) have 1: "p - 1 < c div k" by (simp add: mult_less_cancel_right)
  from assms(4) c have "(c div k) * k \<le> p * k" by simp
  with assms(1) have 2: "c div k \<le> p" by (simp add: mult_le_cancel_right)
  from 1 2 show "c div k = p" by simp
  with c show "c = p * k" by simp
qed

lemma process_frame_cases [consumes 1, case_names skipped early accepted]:
  assumes "st' = process_frame P B v cb hs st f"
  obtains
    (skipped) "frame_count st mod frame_skip P \<noteq> 0" "frames st' = frames st"
      "processed_frame_count st' = processed_frame_count st"
      "last_change_processed_frame st' = last_change_processed_frame st"
  | (early) "frame_count st mod frame_skip P = 0" "frames st' = frames st"
      "processed_frame_count st' = processed_frame_count st + 1"
      "last_change_processed_frame st' = last_change_processed_frame st"
  | (accepted) x where "frame_count st mod frame_skip P = 0" "frames st' = frames st @ [x]"
      "frame_number x = frame_count st"
      "processed_frame_count st' = processed_frame_count st + 1"
      "last_change_processed_frame st' = processed_frame_count st + 1"
      "min_processed_interval P \<le> processed_frame_count st - last_change_processed_frame st"
  using process_frame_step [OF assms] by (elim disjE conjE exE) (erule that(1) that(2) that(3), assumption+)+

lemma process_frame_inv:
  assumes k: "1 \<le> frame_skip P" and inv: "scan_inv P st"
  shows "scan_inv P (process_frame P B v cb hs st f)"
proof -
  let ?st' = "process_frame P B v cb hs st f"
  let ?k = "frame_skip P" and ?c = "frame_count st" and ?p = "processed_frame_count st"
  from inv have lo: "(?p - 1) * ?k < ?c" and hi: "?c \<le> ?p * ?k"
    and mem: "\<forall>f \<in> set (frames st). frame_number f mod ?k = 0 \<and> frame_number f < ?c"
    and lc: "frames st \<noteq> [] \<longrightarrow>
               last_change_processed_frame st = processed_index P (last (frames st)) + 1"
    and sp: "successively (well_spaced P) (frames st)"
    and so: "sorted_wrt (<) (map frame_number (frames st))"
    by (simp_all add: scan_inv_def)
  have cnt: "frame_count ?st' = ?c + 1" by simp
  have "?st' = process_frame P B v cb hs st f" by simp
  then show ?thesis
  proof (cases rule: process_frame_cases)
    case skipped
    have "?c \<noteq> ?p * ?k" using skipped(1) by auto
    with hi have "?c + 1 \<le> ?p * ?k" by simp
    moreover have "(?p - 1) * ?k < ?c + 1" using lo by simp
    ultimately show ?thesis
      using skipped mem lc sp so cnt by (auto simp: scan_inv_def)
  next
    case early
    from exact_multiple [OF k early(1) lo hi] have pk: "?c = ?p * ?k" by simp
    have "(?p + 1 - 1) * ?k < ?c + 1" using pk by simp
    moreover have "?c + 1 \<le> (?p + 1) * ?k" using pk k by (simp add: algebra_simps)
    ultimately show ?thesis
      using early mem lc sp so cnt by (auto simp: scan_inv_def)
  next
    case (accepted x)
    from exact_multiple [OF k accepted(1) lo hi]
    have pd: "?c div ?k = ?p" and pk: "?c = ?p * ?k" by simp_all
    have b1: "(?p + 1 - 1) * ?k < ?c + 1" using pk by simp
    have b2: "?c + 1 \<le> (?p + 1) * ?k" using pk k by (simp add: algebra_simps)
    have px: "processed_index P x = ?p" using pd accepted(3) by (simp add: processed_index_def)
    have sp': "successively (well_spaced P) (frames st @ [x])"
      using sp lc accepted(6) px
      by (auto simp: successively_append_iff well_spaced_def)
    have so': "sorted_wrt (<) (map frame_number (frames st @ [x]))"
      using so mem accepted(3) by (auto simp: sorted_wrt_append)
    have mem': "\<forall>f \<in> set (frames st @ [x]). frame_number f mod ?k = 0 \<and> frame_number f < ?c + 1"
      using mem accepted(1,3) by auto
    show ?thesis
      unfolding scan_inv_def accepted(2,4,5) cnt
      using b1 b2 px sp' so' mem' by simp
  qed
qed

lemma read_loop_inv:
  assumes "1 \<le> frame_skip P" and "scan_inv P st"
  shows "scan_inv P (snd (read_loop P B v cb sc hs st fs))"
  using assms(2)
  by (induction fs arbitrary: st) (simp_all add: process_frame_inv [OF assms(1)])

lemma initial_scan_inv: "1 \<le> frame_skip P \<Longrightarrow> scan_inv P (initial_scan_state P v cb)"
  by (simp add: scan_inv_def initial_scan_state_def)

lemma extract_candidates:
  assumes "extract_frames_with_changes P B v cb sc hs = Inr r"
  shows "candidates r =
           frames (snd (read_loop P B v cb sc hs
                          (initial_scan_state P v cb :: ('img, 'feat) scan_state) (decoded v)))"
  using assms
  by (auto simp: extract_frames_with_changes_def Let_def split: if_splits prod.splits)

lemma init_frame_skip [simp]: "1 \<le> frame_skip (VideoProcessor_init B ct mfi ml fskip)"
  by (simp add: VideoProcessor_init_def)

section \<open>The detector: independence of the callback, and stopping\<close>

lemma core_detect_change:
  "detect_change P B (core st) f = (case detect_change P B st f of (b, s) \<Rightarrow> (b, core s))"
  by (simp add: detect_change_def core_def Let_def split: option.splits)

lemma core_fields [simp]:
  "frames (core st) = frames st" "frame_count (core st) = frame_count st"
  "processed_frame_count (core st) = processed_frame_count st"
  "last_change_processed_frame (core st) = last_change_processed_frame st"
  "emitted (core st) = []" "core (core st) = core st"
  by (simp_all add: core_def)

lemma core_process_frame:
  "core (process_frame P B v cb hs st f) = process_frame P B v False hs' (core st) f"
proof (cases "frame_count st mod frame_skip P \<noteq> 0")
  case True
  then show ?thesis by (simp add: process_frame_def) (simp add: core_def)
next
  case skip: False
  let ?st1 = "st\<lparr>processed_frame_count := processed_frame_count st + 1\<rparr>"
  have c1: "(core st)\<lparr>processed_frame_count := processed_frame_count st + 1\<rparr> = core ?st1"
    by (simp add: core_def)
  show ?thesis
  proof (cases "processed_frame_count st - last_change_processed_frame st < min_processed_interval P")
    case True
    with skip show ?thesis by (simp add: process_frame_def Let_def) (simp add: core_def)
  next
    case far: False
    obtain b st2 where dc: "detect_change P B ?st1 f = (b, st2)"
      by (cases "detect_change P B ?st1 f")
    then have dc': "detect_change P B (core ?st1) f = (b, core st2)"
      by (simp add: core_detect_change)
    from skip far dc dc' c1 show ?thesis
      by (simp add: process_frame_def Let_def store_frame_def) (simp add: core_def)
  qed
qed

lemma core_stop [simp]: "stop_requested sc (core st) = stop_requested sc st"
  by (simp add: stop_requested_def split: option.splits)

lemma core_read_loop:
  "core (snd (read_loop P B v cb sc hs st fs)) = snd (read_loop P B v False sc hs' (core st) fs)"
  and "fst (read_loop P B v cb sc hs st fs) = fst (read_loop P B v False sc hs' (core st) fs)"
  by (induction fs arbitrary: st) (simp_all add: core_process_frame [where hs' = hs'])

lemma frames_process_frame_prefix: "prefix (frames st) (frames (process_frame P B v cb hs st f))"
  by (cases rule: process_frame_cases [OF refl, where st = st and P = P and B = B and v = v and cb = cb and hs = hs and f = f]) simp_all

lemma frames_read_loop_prefix: "prefix (frames st) (frames (snd (read_loop P B v cb sc hs st fs)))"
proof (induction fs arbitrary: st)
  case Nil
  then show ?case by simp
next
  case (Cons f fs)
  show ?case
    using frames_process_frame_prefix Cons.IH prefix_order.trans by fastforce
qed

lemma stopped_run_prefix:
  "prefix (frames (snd (read_loop P B v False (Some answers) hs st fs)))
          (frames (snd (read_loop P B v False None hs st fs)))"
proof (induction fs arbitrary: st)
  case Nil
  then show ?case by simp
next
  case (Cons f fs)
  show ?case
  proof (cases "stop_requested (Some answers) st")
    case True
    have "prefix (frames st) (frames (snd (read_loop P B v False None hs st (f # fs))))"
      by (rule frames_read_loop_prefix)
    with True show ?thesis by simp
  next
    case False
    with Cons.IH show ?thesis by (simp add: stop_requested_def)
  qed
qed

lemma stop_is_honoured:
  assumes "frame_count st \<le> k" "k \<le> frame_count st + int (length fs)" "answers k"
  shows "fst (read_loop P B v cb (Some answers) hs st fs)"
  using assms
proof (induction fs arbitrary: st)
  case Nil
  then show ?case by (simp add: stop_requested_def)
next
  case (Cons f fs)
  show ?case
  proof (cases "answers (frame_count st)")
    case True
    then show ?thesis by (simp add: stop_requested_def)
  next
    case False
    with Cons.prems have "frame_count st \<noteq> k" by auto
    with Cons.prems have "frame_count (process_frame P B v cb hs st f) \<le> k"
      "k \<le> frame_count (process_frame P B v cb hs st f) + int (length fs)" by simp_all
    from Cons.IH [OF this Cons.prems(3)] False show ?thesis by (simp add: stop_requested_def)
  qed
qed

lemma never_stopped_without_check: "\<not> fst (read_loop P B v cb None hs st fs)"
  by (induction fs arbitrary: st) (simp_all add: stop_requested_def)

section \<open>The detector: claims\<close>

lemmas detector_defs =
  extract_frames_with_changes_def VideoProcessor_init_def still_backend_def clip_def
  initial_scan_state_def process_frame_def stop_requested_def min_processed_interval_def
  detect_change_def store_frame_def Let_def

text \<open>
  With \<^verbatim>\<open>min_frame_interval\<close> at least 1 the first decoded frame passes the spacing test
  and is the first candidate, unless the first poll of \<^verbatim>\<open>stop_check\<close> already stops the
  run.
\<close>

lemma first_iteration_accepts:
  fixes B :: "('img, 'feat) backend"
  assumes mfi: "1 \<le> min_frame_interval P" and k: "1 \<le> frame_skip P"
  shows "\<exists>x. frames (process_frame P B v cb hs
                 (initial_scan_state P v cb :: ('img, 'feat) scan_state) f) = [x] \<and>
             frame_number x = 0"
proof -
  have "min_frame_interval P div frame_skip P \<le> min_frame_interval P div 1"
    using mfi k by (intro zdiv_mono2) simp_all
  with mfi have near: "min_processed_interval P \<le> min_frame_interval P"
    by (simp add: min_processed_interval_def)
  then show ?thesis
    by (simp add: process_frame_def initial_scan_state_def detect_change_def store_frame_def
        Let_def)
qed

lemma first_frame_accepted_when_interval_positive:
  fixes B :: "('img, 'feat) backend"
  assumes P: "P = VideoProcessor_init B' ct mfi ml fskip" and mfi: "1 \<le> mfi"
    and opened: "is_opened v" and nonempty: "decoded v \<noteq> []"
    and go: "\<not> stop_requested sc (initial_scan_state P v cb :: ('img, 'feat) scan_state)"
  shows "\<exists>r. extract_frames_with_changes P B v cb sc hs = Inr r \<and>
             candidates r \<noteq> [] \<and> frame_number (hd (candidates r)) = 0"
proof -
  let ?s0 = "initial_scan_state P v cb :: ('img, 'feat) scan_state"
  from nonempty obtain f fs where v: "decoded v = f # fs" by (cases "decoded v") auto
  have "1 \<le> min_frame_interval P" "1 \<le> frame_skip P"
    using P mfi by (simp_all add: VideoProcessor_init_def)
  from first_iteration_accepts [OF this, of B v cb hs f] obtain x where
    x: "frames (process_frame P B v cb hs ?s0 f) = [x]" "frame_number x = 0" by blast
  have "prefix (frames (process_frame P B v cb hs ?s0 f))
          (frames (snd (read_loop P B v cb sc hs (process_frame P B v cb hs ?s0 f) fs)))"
    by (rule frames_read_loop_prefix)
  with x go v have "\<exists>ys. frames (snd (read_loop P B v cb sc hs ?s0 (decoded v))) = x # ys"
    by (auto simp: prefix_def)
  then obtain ys where ys: "frames (snd (read_loop P B v cb sc hs ?s0 (decoded v))) = x # ys" ..
  have "\<exists>r. extract_frames_with_changes P B v cb sc hs = Inr r"
    using opened
    by (cases "read_loop P B v cb sc hs ?s0 (decoded v)")
       (simp add: extract_frames_with_changes_def)
  then obtain r where r: "extract_frames_with_changes P B v cb sc hs = Inr r" ..
  from extract_candidates [OF r] ys x(2) r show ?thesis by simp
qed

text \<open>
  C1 (the first decoded frame is always the first candidate). The code does not do this
  when \<^verbatim>\<open>min_frame_interval\<close> is 0: the spacing test of lines 169-174 compares
  \<open>1 - (-0) - 1 = 0\<close> with \<open>max 1 0 = 1\<close> and skips frame 0 before the ``always include
  first frame'' branch is reached. A one-frame video yields no candidate, and a two-frame
  video yields frame 1 as its first candidate. For \<^verbatim>\<open>min_frame_interval\<close> of 1 or more the
  claim holds (\<open>first_frame_accepted_when_interval_positive\<close>).
\<close>

theorem first_frame_lost_when_interval_is_zero:
  "extract_frames_with_changes (VideoProcessor_init still_backend 0.3 0 False 1)
     still_backend (clip [7]) False None (\<lambda>k. False) =
   Inr \<lparr>candidates = [], progress = [], self_frames = Some []\<rparr> \<and>
   extract_frames_with_changes (VideoProcessor_init still_backend 0.3 0 False 1)
     still_backend (clip [7, 8]) False None (\<lambda>k. False) =
   Inr \<lparr>candidates =
         [\<lparr>frame_number = 1, timestamp = 1, image_entry = Some 8, width = 4, height = 3\<rparr>],
        progress = [],
        self_frames = Some
         [\<lparr>frame_number = 1, timestamp = 1, image_entry = Some 8, width = 4, height = 3\<rparr>]\<rparr>"
  by (simp add: detector_defs)

text \<open>
  C3. In every run that returns, any two consecutive candidates have at least
  \<open>max 1 (min_frame_interval div frame_skip)\<close> processed frames strictly between them (the
  first pair included), and every candidate is a processed frame, so that its
  \<open>processed_index\<close> is its position among the frames that survive the \<^verbatim>\<open>frame_skip\<close>
  filter.
\<close>

theorem candidates_well_spaced:
  fixes B :: "('img, 'feat) backend"
  assumes "P = VideoProcessor_init B' ct mfi ml fskip"
    and "extract_frames_with_changes P B v cb sc hs = Inr r"
  shows "successively (well_spaced P) (candidates r) \<and> 
         list_all (\<lambda>f. frame_number f mod frame_skip P = 0) (candidates r)"
proof -
  have k: "1 \<le> frame_skip P" using assms(1) by simp
  have "scan_inv P (snd (read_loop P B v cb sc hs
          (initial_scan_state P v cb :: ('img, 'feat) scan_state) (decoded v)))"
    by (rule read_loop_inv [OF k initial_scan_inv [OF k]])
  then show ?thesis
    unfolding extract_candidates [OF assms(2)] by (simp add: scan_inv_def list_all_iff)
qed

theorem candidates_well_spaced_witness:
  "\<exists>r. extract_frames_with_changes (VideoProcessor_init still_backend 0.3 2 False 1)
          still_backend (clip [7, 8, 9, 10]) False None (\<lambda>k. False) = Inr r \<and>
        map frame_number (candidates r) = [0, 3] \<and>
        successively (well_spaced (VideoProcessor_init still_backend 0.3 2 False 1)) (candidates r) \<and>
        list_all (\<lambda>f. frame_number f mod frame_skip (VideoProcessor_init still_backend 0.3 2 False 1) = 0)
          (candidates r)"
proof -
  have run: "extract_frames_with_changes (VideoProcessor_init still_backend 0.3 2 False 1)
          still_backend (clip [7, 8, 9, 10]) False None (\<lambda>k. False) =
        Inr \<lparr>candidates =
              [\<lparr>frame_number = 0, timestamp = 0, image_entry = Some 7, width = 4, height = 3\<rparr>,
               \<lparr>frame_number = 3, timestamp = 3, image_entry = Some 10, width = 4, height = 3\<rparr>],
             progress = [],
             self_frames = Some
              [\<lparr>frame_number = 0, timestamp = 0, image_entry = Some 7, width = 4, height = 3\<rparr>,
               \<lparr>frame_number = 3, timestamp = 3, image_entry = Some 10, width = 4, height = 3\<rparr>]\<rparr>"
    by (simp add: detector_defs)
  from candidates_well_spaced [OF refl run] show ?thesis
    unfolding run by simp
qed


text \<open>
  C8. If the video opens and \<^verbatim>\<open>stop_check\<close> answers true at one of the polls the loop makes
  (poll \<open>k\<close> for \<open>0 \<le> k \<le>\<close> number of decoded frames), the call returns a list, which is
  a prefix of the list of the run without \<^verbatim>\<open>stop_check\<close> on the same video and processor
  (whatever the callbacks and the clock of the two runs), and, when a callback was passed,
  the last dictionary it received has stage \<^verbatim>\<open>stopped\<close> and no \<^verbatim>\<open>error\<close> key.
\<close>

theorem stopped_run_returns_prefix:
  fixes B :: "('img, 'feat) backend"
  assumes opened: "is_opened v"
    and k: "0 \<le> k" "k \<le> int (length (decoded v))" "answers k"
  shows "\<exists>r full.
           extract_frames_with_changes P B v cb (Some answers) hs = Inr r \<and>
           extract_frames_with_changes P B v cb' None hs' = Inr full \<and>
           prefix (candidates r) (candidates full) \<and>
           (cb \<longrightarrow> progress r \<noteq> [] \<and>
                  map_of (last (progress r)) ''stage'' = Some (PStr ''stopped'') \<and>
                  map_of (last (progress r)) ''error'' = None)"
proof -
  let ?s0 = "initial_scan_state P v cb :: ('img, 'feat) scan_state"
  let ?t0 = "initial_scan_state P v cb' :: ('img, 'feat) scan_state"
  let ?run = "read_loop P B v cb (Some answers) hs ?s0 (decoded v)"
  let ?all = "read_loop P B v cb' None hs' ?t0 (decoded v)"
  have c0: "core ?s0 = core ?t0" by (simp add: core_def initial_scan_state_def)
  have stop: "fst ?run"
    by (rule stop_is_honoured [where k = k]) (use k in \<open>simp_all add: initial_scan_state_def\<close>)
  have nostop: "\<not> fst ?all" by (rule never_stopped_without_check)
  obtain s1 where run: "?run = (True, s1)" using stop by (cases ?run) simp
  obtain s2 where all: "?all = (False, s2)" using nostop by (cases ?all) simp
  have "frames s1 = frames (core (snd ?run))" using run by simp
  also have "\<dots> = frames (snd (read_loop P B v False (Some answers) hs (core ?s0) (decoded v)))"
    by (simp only: core_read_loop(1) [where hs' = hs])
  finally have f1: "frames s1 =
      frames (snd (read_loop P B v False (Some answers) hs (core ?s0) (decoded v)))" .
  have "frames s2 = frames (core (snd ?all))" using all by simp
  also have "\<dots> = frames (snd (read_loop P B v False None hs (core ?t0) (decoded v)))"
    by (simp only: core_read_loop(1) [where hs' = hs])
  finally have f2: "frames s2 =
      frames (snd (read_loop P B v False None hs (core ?s0) (decoded v)))"
    by (simp only: c0)
  have pre: "prefix (frames s1) (frames s2)"
    unfolding f1 f2 by (rule stopped_run_prefix)
  have r: "extract_frames_with_changes P B v cb (Some answers) hs =
      Inr \<lparr>candidates = frames s1,
           progress = emitted s1 @ (if cb then [stopped_snapshot v s1] else []),
           self_frames = None\<rparr>"
    using opened run by (simp add: extract_frames_with_changes_def)
  have full: "extract_frames_with_changes P B v cb' None hs' =
      Inr \<lparr>candidates = frames s2,
           progress = emitted s2 @ (if cb' then [completed_snapshot v s2] else []),
           self_frames = Some (frames s2)\<rparr>"
    using opened all by (simp add: extract_frames_with_changes_def)
  show ?thesis
    unfolding r full using pre by (simp add: stopped_snapshot_def)
qed



theorem stopped_run_returns_prefix_witness:
  "\<exists>r full.
     extract_frames_with_changes (VideoProcessor_init still_backend 0.3 1 False 1)
       still_backend (clip [7, 8, 9]) True (Some (\<lambda>k. k = 2)) (\<lambda>k. False) = Inr r \<and>
     extract_frames_with_changes (VideoProcessor_init still_backend 0.3 1 False 1)
       still_backend (clip [7, 8, 9]) True None (\<lambda>k. False) = Inr full \<and>
     map frame_number (candidates r) = [0] \<and>
     map frame_number (candidates full) = [0, 2] \<and>
     prefix (candidates r) (candidates full) \<and>
     map_of (last (progress r)) ''stage'' = Some (PStr ''stopped'') \<and>
     map_of (last (progress r)) ''error'' = None"
proof -
  have opened: "is_opened (clip [7, 8, 9])" by (simp add: clip_def)
  have bound: "(2::int) \<le> int (length (decoded (clip [7, 8, 9])))" by (simp add: clip_def)
  have run: "extract_frames_with_changes (VideoProcessor_init still_backend 0.3 1 False 1)
       still_backend (clip [7, 8, 9]) True (Some (\<lambda>k. k = 2)) (\<lambda>k. False) =
     Inr \<lparr>candidates =
           [\<lparr>frame_number = 0, timestamp = 0, image_entry = Some 7, width = 4, height = 3\<rparr>],
          progress =
           [[(''stage'', PStr ''initializing''), (''current_frame'', PInt 0),
             (''total_frames'', PInt 3), (''frames_detected'', PInt 0)],
            [(''stage'', PStr ''stopped''), (''current_frame'', PInt 2),
             (''total_frames'', PInt 3), (''frames_detected'', PInt 1),
             (''stopped'', PBool True),
             (''message'', PStr ''Processing stopped by user. You can continue processing to extract more frames.'')]],
          self_frames = None\<rparr>"
    by (simp add: detector_defs initializing_snapshot_def stopped_snapshot_def)
  have full: "map frame_number (case extract_frames_with_changes (VideoProcessor_init still_backend 0.3 1 False 1)
       still_backend (clip [7, 8, 9]) True None (\<lambda>k. False) of Inr full \<Rightarrow> candidates full) = [0, 2]"
    by (simp add: detector_defs)
  from stopped_run_returns_prefix [OF opened _ bound, where answers = "\<lambda>k. k = 2" and cb = True and cb' = True
             and P = "VideoProcessor_init still_backend 0.3 1 False 1" and B = still_backend
             and hs = "\<lambda>k. False" and hs' = "\<lambda>k. False"]
  show ?thesis
    unfolding run using full by auto
qed

section \<open>The deduplicator: dictionaries, comparisons and the kept list\<close>

lemma prepare_frame_images:
  "frame_images_dict (prepare_frame P B (n, x) d) i =
     (if i = n then (case image_entry x of None \<Rightarrow> frame_images_dict d i | Some a \<Rightarrow> Some a)
      else frame_images_dict d i)"
  by (simp add: prepare_frame_def Let_def split: option.splits)

lemma prepare_frame_features:
  "features_get (frame_features_dict (prepare_frame P B (n, x) d)) i =
     (if i = n
      then (case image_entry x of
              None \<Rightarrow> features_get (frame_features_dict d) i
            | Some a \<Rightarrow> if use_ml P \<and> feature_model_loaded P \<and> tensorflow_available B
                        then dedup_features B a else None)
      else features_get (frame_features_dict d) i)"
  by (auto simp: prepare_frame_def Let_def features_get_def split: option.splits)

lemma prepared_images_fold:
  "frame_images_dict (fold (prepare_frame P B) (enumerate n xs) d) i =
     (if n \<le> i \<and> i < n + length xs
      then (case image_entry (xs ! (i - n)) of
              None \<Rightarrow> frame_images_dict d i | Some a \<Rightarrow> Some a)
      else frame_images_dict d i)"
proof (induction xs arbitrary: n d)
  case Nil
  then show ?case by auto
next
  case (Cons x xs)
  have step: "fold (prepare_frame P B) (enumerate n (x # xs)) d =
      fold (prepare_frame P B) (enumerate (Suc n) xs) (prepare_frame P B (n, x) d)"
    by simp
  show ?case
  proof (cases "i = n")
    case True
    then show ?thesis
      unfolding step Cons.IH prepare_frame_images by (simp split: option.splits)
  next
    case False
    then have "(x # xs) ! (i - n) = xs ! (i - Suc n)" if "n \<le> i"
      using that by (simp add: nth_Cons')
    with False show ?thesis
      unfolding step Cons.IH prepare_frame_images by (auto split: option.splits)
  qed
qed

lemma prepared_features_fold:
  "features_get (frame_features_dict (fold (prepare_frame P B) (enumerate n xs) d)) i =
     (if n \<le> i \<and> i < n + length xs
      then (case image_entry (xs ! (i - n)) of
              None \<Rightarrow> features_get (frame_features_dict d) i
            | Some a \<Rightarrow> if use_ml P \<and> feature_model_loaded P \<and> tensorflow_available B
                        then dedup_features B a else None)
      else features_get (frame_features_dict d) i)"
proof (induction xs arbitrary: n d)
  case Nil
  then show ?case by auto
next
  case (Cons x xs)
  have step: "fold (prepare_frame P B) (enumerate n (x # xs)) d =
      fold (prepare_frame P B) (enumerate (Suc n) xs) (prepare_frame P B (n, x) d)"
    by simp
  show ?case
  proof (cases "i = n")
    case True
    then show ?thesis
      unfolding step Cons.IH prepare_frame_features by (simp split: option.splits)
  next
    case False
    then have "(x # xs) ! (i - n) = xs ! (i - Suc n)" if "n \<le> i"
      using that by (simp add: nth_Cons')
    with False show ?thesis
      unfolding step Cons.IH prepare_frame_features by (auto split: option.splits)
  qed
qed

lemma features_get_empty: "features_get (\<lambda>x. None) i = None"
  by (simp add: features_get_def)

lemma prepared_images:
  "i < length fs \<Longrightarrow> frame_images_dict (prepare_comparison_data P B fs) i = image_entry (fs ! i)"
  by (simp add: prepare_comparison_data_def prepared_images_fold split: option.splits)

lemma prepared_features:
  "i < length fs \<Longrightarrow>
     features_get (frame_features_dict (prepare_comparison_data P B fs)) i = features_of P B (fs ! i)"
  by (simp add: prepare_comparison_data_def prepared_features_fold features_of_def
      features_get_empty split: option.splits)

lemma unique_list_idx_Some:
  "unique_list_idx fs u = Some j \<Longrightarrow> j < length fs \<and> fs ! j = u"
  by (induction fs arbitrary: j) (auto split: if_splits)

lemma unique_list_idx_member:
  "u \<in> set fs \<Longrightarrow> \<exists>j. unique_list_idx fs u = Some j"
  by (induction fs) auto

lemma position_matches_prepared:
  assumes "idx < length fs" "u \<in> set fs"
  shows "position_matches P B thr fs (prepare_comparison_data P B fs) idx u =
           pair_matches P B thr (fs ! idx) u"
proof -
  from assms(2) obtain j where j: "unique_list_idx fs u = Some j"
    using unique_list_idx_member by fastforce
  from unique_list_idx_Some [OF j] have "j < length fs" "fs ! j = u" by simp_all
  with assms(1) j show ?thesis
    by (simp add: position_matches_def pair_matches_def prepared_images prepared_features)
qed

lemma ml_compare_result:
  assumes "ml_compare P B thr idx j cf uf st = (b, st')"
  shows "b = (use_ml P \<and> cosine_reaches B thr cf uf)"
    and "is_duplicate st' = (is_duplicate st \<or> b)"
    and "unique_frames st' = unique_frames st" and "reports st' = reports st"
    and "\<exists>ps. compared st' = compared st @ ps \<and> (\<forall>p \<in> set ps. p = (idx, j))"
  using assms
  by (auto simp: ml_compare_def cosine_reaches_def Let_def split: if_splits option.splits)

lemma ssim_compare_result:
  assumes "ssim_compare B thr idx j ca ua st = (b, st')"
  shows "b = (\<not> is_duplicate st \<and> ssim_reaches B thr ca ua)"
    and "is_duplicate st' = (is_duplicate st \<or> b)"
    and "unique_frames st' = unique_frames st" and "reports st' = reports st"
    and "\<exists>ps. compared st' = compared st @ ps \<and> (\<forall>p \<in> set ps. p = (idx, j))"
  using assms
  by (auto simp: ssim_compare_def ssim_reaches_def Let_def split: if_splits option.splits)

lemma compare_with_unique_result:
  assumes "compare_with_unique P B thr fs d idx st u = (b, st')" and "\<not> is_duplicate st"
  shows "b = position_matches P B thr fs d idx u \<and> is_duplicate st' = b \<and>
        unique_frames st' = unique_frames st \<and> reports st' = reports st \<and>
        (\<exists>ps. compared st' = compared st @ ps \<and>
              (\<forall>p \<in> set ps. fst p = idx \<and> unique_list_idx fs u = Some (snd p)))"
  proof (cases "unique_list_idx fs u")
    case None
    with assms show ?thesis
      by (simp add: compare_with_unique_def position_matches_def)
  next
    case (Some j)
    let ?cf = "features_get (frame_features_dict d) idx"
    let ?uf = "features_get (frame_features_dict d) j"
    obtain b1 st1 where ml: "ml_compare P B thr idx j ?cf ?uf st = (b1, st1)"
      by (cases "ml_compare P B thr idx j ?cf ?uf st")
    note m = ml_compare_result [OF ml]
    show ?thesis
    proof (cases b1)
      case True
      with assms ml Some have "b = True" "st' = st1"
        by (simp_all add: compare_with_unique_def Let_def)
      with True m Some assms(2) show ?thesis
        by (fastforce simp: position_matches_def)
    next
      case False
      with assms ml Some
      have ss: "ssim_compare B thr idx j (frame_images_dict d idx) (frame_images_dict d j) st1 = (b, st')"
        by (simp add: compare_with_unique_def Let_def)
      note s = ssim_compare_result [OF ss]
      from m(5) obtain ps1 where ps1: "compared st1 = compared st @ ps1" "\<forall>p \<in> set ps1. p = (idx, j)"
        by blast
      from s(5) obtain ps2 where ps2: "compared st' = compared st1 @ ps2" "\<forall>p \<in> set ps2. p = (idx, j)"
        by blast
      have cmp: "compared st' = compared st @ (ps1 @ ps2)"
        "\<forall>p \<in> set (ps1 @ ps2). fst p = idx \<and> unique_list_idx fs u = Some (snd p)"
        using ps1 ps2 Some by auto
      from False m s Some assms(2) cmp show ?thesis
        by (auto simp: position_matches_def)
    qed
  qed

lemma compare_loop_result:
  assumes "\<not> is_duplicate st"
  shows "is_duplicate (compare_loop P B thr fs d idx st us) =
           (\<exists>u \<in> set us. position_matches P B thr fs d idx u) \<and>
         unique_frames (compare_loop P B thr fs d idx st us) = unique_frames st \<and>
         reports (compare_loop P B thr fs d idx st us) = reports st \<and>
         (\<exists>ps. compared (compare_loop P B thr fs d idx st us) = compared st @ ps \<and>
               (\<forall>p \<in> set ps. fst p = idx \<and> (\<exists>u \<in> set us. unique_list_idx fs u = Some (snd p))))"
  using assms
proof (induction us arbitrary: st)
  case Nil
  then show ?case by simp
next
  case (Cons u us)
  obtain b st1 where one: "compare_with_unique P B thr fs d idx st u = (b, st1)"
    by (cases "compare_with_unique P B thr fs d idx st u")
  from compare_with_unique_result [OF one Cons.prems]
  have b: "b = position_matches P B thr fs d idx u" and dup: "is_duplicate st1 = b"
    and uf: "unique_frames st1 = unique_frames st" and rp: "reports st1 = reports st"
    and "\<exists>ps. compared st1 = compared st @ ps \<and>
              (\<forall>p \<in> set ps. fst p = idx \<and> unique_list_idx fs u = Some (snd p))"
    by simp_all
  then obtain ps1 where ps1: "compared st1 = compared st @ ps1"
    "\<forall>p \<in> set ps1. fst p = idx \<and> unique_list_idx fs u = Some (snd p)" by blast
  show ?case
  proof (cases b)
    case True
    with one have "compare_loop P B thr fs d idx st (u # us) = st1" by simp
    with True b dup uf rp ps1 show ?thesis by auto
  next
    case False
    with one have eq: "compare_loop P B thr fs d idx st (u # us) =
        compare_loop P B thr fs d idx st1 us" by simp
    from False dup have nd: "\<not> is_duplicate st1" by simp
    from Cons.IH [OF nd] obtain ps2 where
      ih: "is_duplicate (compare_loop P B thr fs d idx st1 us) =
             (\<exists>u \<in> set us. position_matches P B thr fs d idx u)"
          "unique_frames (compare_loop P B thr fs d idx st1 us) = unique_frames st1"
          "reports (compare_loop P B thr fs d idx st1 us) = reports st1"
          "compared (compare_loop P B thr fs d idx st1 us) = compared st1 @ ps2"
          "\<forall>p \<in> set ps2. fst p = idx \<and> (\<exists>u \<in> set us. unique_list_idx fs u = Some (snd p))"
      by blast
    have cmp: "compared (compare_loop P B thr fs d idx st1 us) = compared st @ (ps1 @ ps2)"
      "\<forall>p \<in> set (ps1 @ ps2). fst p = idx \<and>
          (\<exists>w \<in> set (u # us). unique_list_idx fs w = Some (snd p))"
      using ps1 ih(4,5) by auto
    from False b ih(1,2,3) uf rp cmp show ?thesis
      unfolding eq by auto
  qed
qed

lemma review_frame_unique:
  "unique_frames (review_frame P B thr cb fs d idx st) =
     (if image_entry (fs ! idx) = None \<or>
         (\<exists>u \<in> set (unique_frames st). position_matches P B thr fs d idx u)
      then unique_frames st else unique_frames st @ [fs ! idx])"
proof -
  let ?st1 = "if cb \<and> idx mod 10 = 0
              then st\<lparr>reports := reports st @ [review_snapshot fs idx st]\<rparr> else st"
  have u1: "unique_frames ?st1 = unique_frames st" by simp
  have nd: "\<not> is_duplicate (?st1\<lparr>is_duplicate := False\<rparr>)" by simp
  note r = compare_loop_result [OF nd, of P B thr fs d idx "unique_frames ?st1"]
  show ?thesis
  proof (cases "image_entry (fs ! idx)")
    case None
    then show ?thesis by (simp add: review_frame_def Let_def)
  next
    case (Some a)
    from r have "is_duplicate (compare_loop P B thr fs d idx (?st1\<lparr>is_duplicate := False\<rparr>)
                    (unique_frames ?st1)) =
                 (\<exists>u \<in> set (unique_frames st). position_matches P B thr fs d idx u)"
      and "unique_frames (compare_loop P B thr fs d idx (?st1\<lparr>is_duplicate := False\<rparr>)
                    (unique_frames ?st1)) = unique_frames st"
      unfolding u1 by simp_all
    with Some show ?thesis
      unfolding review_frame_def Let_def by (simp only: u1 option.case if_False simp_thms split: if_splits) auto
  qed
qed

lemma greedy_snoc:
  "greedy dup kept (xs @ [x]) =
     (if dup x (greedy dup kept xs) then greedy dup kept xs else greedy dup kept xs @ [x])"
  by (induction xs arbitrary: kept) simp_all

lemma greedy_extends:
  "\<exists>ys. greedy dup kept xs = kept @ ys \<and> subseq ys xs \<and>
        (\<forall>y \<in> set ys. \<exists>k. \<not> dup y k)"
proof (induction xs arbitrary: kept)
  case Nil
  then show ?case by simp
next
  case (Cons x xs)
  show ?case
  proof (cases "dup x kept")
    case True
    from Cons.IH [of kept] obtain ys where "greedy dup kept xs = kept @ ys" "subseq ys xs"
      "\<forall>y \<in> set ys. \<exists>k. \<not> dup y k" by blast
    with True show ?thesis by auto
  next
    case False
    from Cons.IH [of "kept @ [x]"] obtain ys where
      "greedy dup (kept @ [x]) xs = (kept @ [x]) @ ys" "subseq ys xs"
      "\<forall>y \<in> set ys. \<exists>k. \<not> dup y k" by blast
    with False have "greedy dup kept (x # xs) = kept @ (x # ys)" "subseq (x # ys) (x # xs)"
      "\<forall>y \<in> set (x # ys). \<exists>k. \<not> dup y k" by auto
    then show ?thesis by blast
  qed
qed

lemma subseq_subset: "subseq ys xs \<Longrightarrow> set ys \<subseteq> set xs"
  by (auto dest: list_emb_set)

lemma greedy_set: "set (greedy dup kept xs) \<subseteq> set kept \<union> set xs"
proof -
  from greedy_extends [of dup kept xs] obtain ys where
    "greedy dup kept xs = kept @ ys" "subseq ys xs" by blast
  with subseq_subset [of ys xs] show ?thesis by auto
qed

lemma greedy_idem:
  "greedy dup kept xs = kept @ ys \<Longrightarrow> greedy dup kept ys = kept @ ys"
proof (induction xs arbitrary: kept ys)
  case Nil
  then show ?case by simp
next
  case (Cons x xs)
  show ?case
  proof (cases "dup x kept")
    case True
    with Cons.prems have "greedy dup kept xs = kept @ ys" by simp
    then show ?thesis by (rule Cons.IH)
  next
    case False
    from greedy_extends [of dup "kept @ [x]" xs] obtain zs where
      zs: "greedy dup (kept @ [x]) xs = (kept @ [x]) @ zs" by blast
    with False Cons.prems have ys: "ys = x # zs" by simp
    from Cons.IH [OF zs] have "greedy dup (kept @ [x]) zs = (kept @ [x]) @ zs" .
    with False ys show ?thesis by simp
  qed
qed

lemma sorted_wrt_subseq:
  "subseq ys xs \<Longrightarrow> sorted_wrt R xs \<Longrightarrow> sorted_wrt R ys"
proof (induction ys xs rule: list_emb.induct)
  case (list_emb_Nil ys)
  then show ?case by simp
next
  case (list_emb_Cons xs ys y)
  then show ?case by simp
next
  case (list_emb_Cons2 x y xs ys)
  from list_emb_Cons2(2) have "set xs \<subseteq> set ys" by (rule subseq_subset)
  with list_emb_Cons2 show ?case by auto
qed

lemma review_prefix_greedy:
  assumes that: "set (unique_frames st0) \<subseteq> set fs" and "m < length fs"
  shows "unique_frames
           (fold (review_frame P B thr cb fs (prepare_comparison_data P B fs)) [1..<Suc m] st0) =
         greedy (discards P B thr) (unique_frames st0) (take m (tl fs))"
  using assms(2)
proof (induction m)
  case 0
  then show ?case by simp
next
  case (Suc m)
  then have m: "m < length fs" and sm: "Suc m < length fs" by simp_all
  let ?run = "\<lambda>m. fold (review_frame P B thr cb fs (prepare_comparison_data P B fs)) [1..<Suc m] st0"
  let ?U = "greedy (discards P B thr) (unique_frames st0) (take m (tl fs))"
  have ih: "unique_frames (?run m) = ?U" by (rule Suc.IH [OF m])
  have split: "[1..<Suc (Suc m)] = [1..<Suc m] @ [Suc m]" by simp
  have run: "?run (Suc m) = review_frame P B thr cb fs (prepare_comparison_data P B fs) (Suc m) (?run m)"
    unfolding split by simp
  have "set ?U \<subseteq> set (unique_frames st0) \<union> set (take m (tl fs))" by (rule greedy_set)
  also have "\<dots> \<subseteq> set fs"
  proof -
    have "fs \<noteq> []" using m by auto
    then have "set (take m (tl fs)) \<subseteq> set fs"
      by (meson in_set_takeD list.set_sel(2) subsetI)
    with that show ?thesis by simp
  qed
  finally have sub: "set ?U \<subseteq> set fs" .
  have cond: "(image_entry (fs ! Suc m) = None \<or>
        (\<exists>u \<in> set ?U. position_matches P B thr fs (prepare_comparison_data P B fs) (Suc m) u)) =
      discards P B thr (fs ! Suc m) ?U"
  proof -
    have "position_matches P B thr fs (prepare_comparison_data P B fs) (Suc m) u =
          pair_matches P B thr (fs ! Suc m) u" if "u \<in> set ?U" for u
      using that sub by (intro position_matches_prepared [OF sm]) auto
    then show ?thesis by (auto simp: discards_def)
  qed
  have tk: "take (Suc m) (tl fs) = take m (tl fs) @ [fs ! Suc m]"
    using sm by (simp add: take_Suc_conv_app_nth nth_tl)
  show ?case
    unfolding run review_frame_unique ih cond tk greedy_snoc by simp
qed

lemma returned_greedy:
  assumes "fs \<noteq> []"
  shows "returned (remove_duplicate_frames P B fs thr cb) =
           greedy (discards P B thr) [hd fs] (tl fs)"
proof (cases "length fs \<le> 1")
  case True
  with assms obtain x where "fs = [x]" by (cases fs) auto
  then show ?thesis by (simp add: remove_duplicate_frames_def)
next
  case False
  then obtain m where m: "length fs = Suc m" by (cases "length fs") auto
  let ?st0 = "\<lparr>unique_frames = [fs ! 0], is_duplicate = False, duplicates_removed = 0,
               reports = (if cb then [first_review_snapshot fs] else []), compared = []\<rparr>"
  have sub: "set (unique_frames ?st0) \<subseteq> set fs" using assms by simp
  have "m < length fs" using m by simp
  from review_prefix_greedy [OF sub this, of P B thr cb]
  have "unique_frames (review_all P B thr cb fs) =
          greedy (discards P B thr) [fs ! 0] (take m (tl fs))"
    by (simp add: review_all_def m)
  moreover have "take m (tl fs) = tl fs" using m by simp
  moreover have "fs ! 0 = hd fs" using assms by (simp add: hd_conv_nth)
  ultimately show ?thesis using False assms by (simp add: remove_duplicate_frames_def Let_def)
qed

section \<open>Frame numbers increase\<close>

lemma process_frame_increasing:
  assumes "increasing_so_far st"
  shows "increasing_so_far (process_frame P B v cb hs st f)"
proof -
  have "process_frame P B v cb hs st f = process_frame P B v cb hs st f" ..
  then show ?thesis
  proof (cases rule: process_frame_cases)
    case skipped
    with assms show ?thesis by (auto simp: increasing_so_far_def)
  next
    case early
    with assms show ?thesis by (auto simp: increasing_so_far_def)
  next
    case (accepted x)
    with assms show ?thesis by (auto simp: increasing_so_far_def sorted_wrt_append)
  qed
qed

lemma read_loop_increasing:
  "increasing_so_far st \<Longrightarrow> increasing_so_far (snd (read_loop P B v cb sc hs st fs))"
  by (induction fs arbitrary: st) (simp_all add: process_frame_increasing)

lemma returned_subseq: "subseq (returned (remove_duplicate_frames P B fs thr cb)) fs"
proof (cases fs)
  case Nil
  then show ?thesis by (simp add: remove_duplicate_frames_def)
next
  case (Cons x xs)
  from greedy_extends [of "discards P B thr" "[x]" xs] obtain ys where
    "greedy (discards P B thr) [x] xs = [x] @ ys" "subseq ys xs" by blast
  with Cons show ?thesis by (simp add: returned_greedy)
qed

lemma four_frame_run:
  "extract_frames_with_changes (VideoProcessor_init still_backend 0.3 2 False 1)
      still_backend (clip [7, 8, 9, 10]) False None (\<lambda>k. False) =
   Inr \<lparr>candidates =
         [\<lparr>frame_number = 0, timestamp = 0, image_entry = Some 7, width = 4, height = 3\<rparr>,
          \<lparr>frame_number = 3, timestamp = 3, image_entry = Some 10, width = 4, height = 3\<rparr>],
        progress = [],
        self_frames = Some
         [\<lparr>frame_number = 0, timestamp = 0, image_entry = Some 7, width = 4, height = 3\<rparr>,
          \<lparr>frame_number = 3, timestamp = 3, image_entry = Some 10, width = 4, height = 3\<rparr>]\<rparr>"
  by (simp add: detector_defs)

lemmas dedup_defs = discards_def pair_matches_def ssim_reaches_def cosine_reaches_def
  features_of_def shot_def blank_def near_def table_backend_def ssim_only_def
  VideoProcessor_init_def

lemma four_shots_095:
  "returned (remove_duplicate_frames ssim_only table_backend
     [shot 0 0, shot 5 1, shot 9 2, shot 12 3] 0.95 False) = [shot 0 0, shot 5 1]"
  by (simp add: returned_greedy dedup_defs)

lemma four_shots_08:
  "returned (remove_duplicate_frames ssim_only table_backend
     [shot 0 0, shot 5 1, shot 9 2, shot 12 3] 0.8 False) = [shot 0 0, shot 9 2, shot 12 3]"
  by (simp add: returned_greedy dedup_defs)


section \<open>The deduplicator: claims\<close>

text \<open>
  C10. On an input of length zero or one \<^verbatim>\<open>remove_duplicate_frames\<close> returns the input,
  passes nothing to the callback and compares nothing.
\<close>

theorem short_input_returned_unchanged:
  "length fs \<le> 1 \<Longrightarrow>
   remove_duplicate_frames P B fs thr cb =
     \<lparr>returned = fs, dedup_progress = [], dedup_compared = []\<rparr>"
  by (simp add: remove_duplicate_frames_def)


theorem short_input_returned_unchanged_witness:
  "length [shot 0 0] \<le> 1 \<and>
   remove_duplicate_frames ssim_only table_backend [shot 0 0] 0.95 True =
     \<lparr>returned = [shot 0 0], dedup_progress = [], dedup_compared = []\<rparr>"
  using short_input_returned_unchanged [where fs = "[shot 0 0]" and P = ssim_only and B = table_backend and thr = "0.95" and cb = True]
  by simp


text \<open>
  C5. For a non-empty input the returned list is a subsequence of the input (the relative
  order is kept), it is not empty, and its first element is the input's first element.
\<close>

theorem output_is_subsequence_with_first:
  assumes "fs \<noteq> []"
  shows "subseq (returned (remove_duplicate_frames P B fs thr cb)) fs \<and>
         returned (remove_duplicate_frames P B fs thr cb) \<noteq> [] \<and>
         hd (returned (remove_duplicate_frames P B fs thr cb)) = hd fs"
proof -
  from greedy_extends [of "discards P B thr" "[hd fs]" "tl fs"] obtain ys where
    "greedy (discards P B thr) [hd fs] (tl fs) = [hd fs] @ ys" by blast
  with assms have "returned (remove_duplicate_frames P B fs thr cb) = hd fs # ys"
    by (simp add: returned_greedy)
  with returned_subseq [of P B fs thr cb] show ?thesis by simp
qed


theorem output_is_subsequence_with_first_witness:
  "[shot 0 0, shot 5 1, shot 9 2, shot 12 3] \<noteq> [] \<and>
   returned (remove_duplicate_frames ssim_only table_backend
     [shot 0 0, shot 5 1, shot 9 2, shot 12 3] 0.95 False) = [shot 0 0, shot 5 1] \<and>
   subseq [shot 0 0, shot 5 1] [shot 0 0, shot 5 1, shot 9 2, shot 12 3] \<and>
   hd [shot 0 0, shot 5 1] = hd [shot 0 0, shot 5 1, shot 9 2, shot 12 3]"
  using output_is_subsequence_with_first [where fs = "[shot 0 0, shot 5 1, shot 9 2, shot 12 3]" and P = ssim_only
      and B = table_backend and thr = "0.95" and cb = False]
  unfolding four_shots_095 by simp


text \<open>
  C6. Running \<^verbatim>\<open>remove_duplicate_frames\<close> on its own output, with the same processor,
  backend and threshold, returns that output unchanged.
\<close>

theorem deduplication_idempotent:
  "returned (remove_duplicate_frames P B
      (returned (remove_duplicate_frames P B fs thr cb)) thr cb') =
   returned (remove_duplicate_frames P B fs thr cb)"
proof (cases "fs = []")
  case True
  then show ?thesis by (simp add: remove_duplicate_frames_def)
next
  case False
  let ?D = "discards P B thr"
  from greedy_extends [of ?D "[hd fs]" "tl fs"] obtain ys where
    ys: "greedy ?D [hd fs] (tl fs) = [hd fs] @ ys" by blast
  with False have out: "returned (remove_duplicate_frames P B fs thr cb) = hd fs # ys"
    by (simp add: returned_greedy)
  have "returned (remove_duplicate_frames P B (hd fs # ys) thr cb') = greedy ?D [hd fs] ys"
    by (simp add: returned_greedy)
  also have "\<dots> = [hd fs] @ ys" by (rule greedy_idem [OF ys])
  finally show ?thesis unfolding out by simp
qed


theorem deduplication_idempotent_witness:
  "returned (remove_duplicate_frames ssim_only table_backend
     [shot 0 0, shot 5 1, shot 9 2, shot 12 3] 0.95 False) = [shot 0 0, shot 5 1] \<and>
   returned (remove_duplicate_frames ssim_only table_backend [shot 0 0, shot 5 1] 0.95 True) =
     [shot 0 0, shot 5 1]"
  using deduplication_idempotent [where fs = "[shot 0 0, shot 5 1, shot 9 2, shot 12 3]" and P = ssim_only
      and B = table_backend and thr = "0.95" and cb = False and cb' = True]
  unfolding four_shots_095 by simp


text \<open>
  C9. The frame numbers of the candidates that \<^verbatim>\<open>extract_frames_with_changes\<close> returns are
  strictly increasing, and those of the list that \<^verbatim>\<open>remove_duplicate_frames\<close> returns are
  strictly increasing whenever those of its input are.
\<close>

theorem frame_numbers_strictly_increasing:
  fixes B :: "('img, 'feat) backend" and B' :: "('img2, 'feat2) backend"
  shows "(extract_frames_with_changes P B v cb sc hs = Inr r \<longrightarrow>
            sorted_wrt (<) (map frame_number (candidates r))) \<and>
         (sorted_wrt (<) (map frame_number fs) \<longrightarrow>
            sorted_wrt (<) (map frame_number
              (returned (remove_duplicate_frames P' B' fs thr cb'))))"
proof (intro conjI impI)
  assume run: "extract_frames_with_changes P B v cb sc hs = Inr r"
  have "increasing_so_far (initial_scan_state P v cb :: ('img, 'feat) scan_state)"
    by (simp add: increasing_so_far_def initial_scan_state_def)
  then have "increasing_so_far (snd (read_loop P B v cb sc hs
      (initial_scan_state P v cb :: ('img, 'feat) scan_state) (decoded v)))"
    by (rule read_loop_increasing)
  then show "sorted_wrt (<) (map frame_number (candidates r))"
    unfolding extract_candidates [OF run] by (simp add: increasing_so_far_def)
next
  assume "sorted_wrt (<) (map frame_number fs)"
  moreover have "subseq (map frame_number (returned (remove_duplicate_frames P' B' fs thr cb')))
      (map frame_number fs)"
    by (rule subseq_map) (rule returned_subseq)
  ultimately show "sorted_wrt (<) (map frame_number
      (returned (remove_duplicate_frames P' B' fs thr cb')))"
    by (rule sorted_wrt_subseq [rotated])
qed


theorem frame_numbers_strictly_increasing_witness:
  "(\<exists>r. extract_frames_with_changes (VideoProcessor_init still_backend 0.3 2 False 1)
           still_backend (clip [7, 8, 9, 10]) False None (\<lambda>k. False) = Inr r \<and>
         map frame_number (candidates r) = [0, 3] \<and>
         sorted_wrt (<) (map frame_number (candidates r))) \<and>
   sorted_wrt (<) (map frame_number [shot 0 0, shot 5 1, shot 9 2, shot 12 3]) \<and>
   map frame_number (returned (remove_duplicate_frames ssim_only table_backend
       [shot 0 0, shot 5 1, shot 9 2, shot 12 3] 0.95 False)) = [0, 5] \<and>
   sorted_wrt (<) (map frame_number (returned (remove_duplicate_frames ssim_only table_backend
       [shot 0 0, shot 5 1, shot 9 2, shot 12 3] 0.95 False)))"
proof -
  have inc: "sorted_wrt (<) (map frame_number [shot 0 0, shot 5 1, shot 9 2, shot 12 3])"
    by (simp add: shot_def)
  note c9 = frame_numbers_strictly_increasing [where P = "VideoProcessor_init still_backend 0.3 2 False 1"
      and B = still_backend and v = "clip [7, 8, 9, 10]" and cb = False and sc = None
      and hs = "\<lambda>k. False" and fs = "[shot 0 0, shot 5 1, shot 9 2, shot 12 3]"
      and P' = ssim_only and B' = table_backend and thr = "0.95" and cb' = False,
      unfolded four_frame_run]
  from c9 inc show ?thesis
    unfolding four_frame_run four_shots_095 by (simp add: shot_def)
qed


text \<open>
  C7 (raising the threshold never shrinks the output). This fails: with the similarity
  table of \<open>table_backend\<close>, threshold 0.8 discards frame 1 (0.9 similar to frame 0) and
  keeps frames 2 and 3, while threshold 0.95 keeps frame 1, to which frames 2 and 3 are
  0.99 similar and are then both discarded.
\<close>

theorem output_size_not_monotone_in_threshold:
  "(0.8::real) \<le> 0.95 \<and>
   length (returned (remove_duplicate_frames ssim_only table_backend
      [shot 0 0, shot 5 1, shot 9 2, shot 12 3] 0.95 False)) <
   length (returned (remove_duplicate_frames ssim_only table_backend
      [shot 0 0, shot 5 1, shot 9 2, shot 12 3] 0.8 False))"
  unfolding four_shots_095 four_shots_08 by simp

text \<open>
  C7, as amended: with the same kept list, a candidate that one review step discards at
  threshold \<open>t2\<close> is also discarded at every threshold \<open>t1 \<le> t2\<close>.
\<close>

lemma reaches_antitone:
  "t1 \<le> t2 \<Longrightarrow> cosine_reaches B t2 cf uf \<Longrightarrow> cosine_reaches B t1 cf uf"
  "t1 \<le> t2 \<Longrightarrow> ssim_reaches B t2 ca ua \<Longrightarrow> ssim_reaches B t1 ca ua"
  by (auto simp: cosine_reaches_def ssim_reaches_def split: option.splits)

lemma position_matches_antitone:
  "t1 \<le> t2 \<Longrightarrow> position_matches P B t2 fs d idx u \<Longrightarrow> position_matches P B t1 fs d idx u"
  by (auto simp: position_matches_def split: option.splits dest: reaches_antitone)

lemmas run_defs = remove_duplicate_frames_def review_all_def review_frame_def
  compare_with_unique_def ml_compare_def ssim_compare_def prepare_comparison_data_def
  prepare_frame_def features_get_def Let_def shot_def blank_def near_def table_backend_def
  ssim_only_def VideoProcessor_init_def first_review_snapshot_def last_review_snapshot_def
  review_snapshot_def

theorem discard_decision_monotone_in_threshold:
  assumes "t1 \<le> t2"
    and "unique_frames (review_frame P B t2 cb fs d idx st) = unique_frames st"
  shows "unique_frames (review_frame P B t1 cb' fs d idx st) = unique_frames st"
  using assms
  by (auto simp: review_frame_unique split: if_splits dest: position_matches_antitone)


theorem discard_decision_monotone_in_threshold_witness:
  "(0.8::real) \<le> 0.9 \<and>
   unique_frames (review_frame ssim_only table_backend 0.9 False [shot 0 0, shot 5 1]
     (prepare_comparison_data ssim_only table_backend [shot 0 0, shot 5 1]) 1 one_kept) =
     unique_frames one_kept \<and>
   unique_frames (review_frame ssim_only table_backend 0.8 False [shot 0 0, shot 5 1]
     (prepare_comparison_data ssim_only table_backend [shot 0 0, shot 5 1]) 1 one_kept) =
     unique_frames one_kept"
proof -
  have le: "(0.8::real) \<le> 0.9" by simp
  have at_09: "unique_frames (review_frame ssim_only table_backend 0.9 False [shot 0 0, shot 5 1]
     (prepare_comparison_data ssim_only table_backend [shot 0 0, shot 5 1]) 1 one_kept) =
     unique_frames one_kept"
    by (simp add: run_defs one_kept_def)
  from discard_decision_monotone_in_threshold [OF le at_09, where cb' = False] le at_09 show ?thesis by simp
qed


section \<open>The deduplicator: which candidates are discarded\<close>

lemma until_first_cong:
  "(\<And>u. u \<in> set us \<Longrightarrow> hit u = hit' u) \<Longrightarrow> until_first hit us = until_first hit' us"
  by (induction us) auto

lemma until_first_subset: "set (until_first hit us) \<subseteq> set us"
  by (induction us) auto

lemma ml_compare_trace:
  assumes "ml_compare P B thr idx j cf uf st = (b, st')"
  shows "compared st' =
           compared st @ (if use_ml P \<and> cf \<noteq> None \<and> uf \<noteq> None then [(idx, j)] else [])"
  using assms
  by (auto simp: ml_compare_def Let_def split: if_splits option.splits)

lemma ssim_compare_trace:
  assumes "ssim_compare B thr idx j ca ua st = (b, st')"
  shows "compared st' =
           compared st @
           (if \<not> is_duplicate st \<and> ca \<noteq> None \<and> ua \<noteq> None then [(idx, j)] else [])"
  using assms
  by (auto simp: ssim_compare_def Let_def split: if_splits option.splits)

lemma compare_with_unique_trace:
  assumes run: "compare_with_unique P B thr fs d idx st u = (b, st')"
    and nd: "\<not> is_duplicate st"
  shows "compared st' = compared st @ position_comparisons P B thr fs d idx u"
proof (cases "unique_list_idx fs u")
  case None
  with run show ?thesis by (simp add: compare_with_unique_def position_comparisons_def)
next
  case (Some j)
  let ?cf = "features_get (frame_features_dict d) idx"
  let ?uf = "features_get (frame_features_dict d) j"
  obtain b1 st1 where ml: "ml_compare P B thr idx j ?cf ?uf st = (b1, st1)"
    by (cases "ml_compare P B thr idx j ?cf ?uf st")
  note m = ml_compare_result [OF ml] and mt = ml_compare_trace [OF ml]
  show ?thesis
  proof (cases b1)
    case True
    with run ml Some have "st' = st1" by (simp add: compare_with_unique_def Let_def)
    with True m(1) mt Some show ?thesis
      by (auto simp: position_comparisons_def cosine_reaches_def split: option.splits)
  next
    case False
    with run ml Some
    have ss: "ssim_compare B thr idx j (frame_images_dict d idx) (frame_images_dict d j) st1 = (b, st')"
      by (simp add: compare_with_unique_def Let_def)
    from False m(2) nd have nd1: "\<not> is_duplicate st1" by simp
    from ssim_compare_trace [OF ss] nd1 mt False m(1) Some show ?thesis
      by (simp add: position_comparisons_def)
  qed
qed

lemma compare_loop_trace:
  assumes "\<not> is_duplicate st"
  shows "compared (compare_loop P B thr fs d idx st us) =
           compared st @
           concat (map (position_comparisons P B thr fs d idx)
                       (until_first (position_matches P B thr fs d idx) us))"
  using assms
proof (induction us arbitrary: st)
  case Nil
  then show ?case by simp
next
  case (Cons u us)
  obtain b st1 where one: "compare_with_unique P B thr fs d idx st u = (b, st1)"
    by (cases "compare_with_unique P B thr fs d idx st u")
  from compare_with_unique_result [OF one Cons.prems]
  have b: "b = position_matches P B thr fs d idx u" and dup: "is_duplicate st1 = b"
    by simp_all
  note tr = compare_with_unique_trace [OF one Cons.prems]
  show ?case
  proof (cases b)
    case True
    with one have "compare_loop P B thr fs d idx st (u # us) = st1" by simp
    with True b tr show ?thesis by simp
  next
    case False
    with one have eq: "compare_loop P B thr fs d idx st (u # us) =
        compare_loop P B thr fs d idx st1 us" by simp
    from False dup have nd: "\<not> is_duplicate st1" by simp
    from Cons.IH [OF nd] False b tr show ?thesis unfolding eq by simp
  qed
qed

lemma review_frame_trace:
  "compared (review_frame P B thr cb fs d idx st) =
     compared st @
     (if image_entry (fs ! idx) = None then []
      else concat (map (position_comparisons P B thr fs d idx)
                       (until_first (position_matches P B thr fs d idx) (unique_frames st))))"
proof -
  let ?st1 = "if cb \<and> idx mod 10 = 0
              then st\<lparr>reports := reports st @ [review_snapshot fs idx st]\<rparr> else st"
  have u1: "unique_frames ?st1 = unique_frames st" and c1: "compared ?st1 = compared st"
    by simp_all
  show ?thesis
  proof (cases "image_entry (fs ! idx)")
    case None
    then show ?thesis by (simp add: review_frame_def Let_def)
  next
    case (Some a)
    let ?st2 = "compare_loop P B thr fs d idx (?st1\<lparr>is_duplicate := False\<rparr>) (unique_frames ?st1)"
    have nd: "\<not> is_duplicate (?st1\<lparr>is_duplicate := False\<rparr>)" by simp
    have "compared (review_frame P B thr cb fs d idx st) = compared ?st2"
      using Some by (simp add: review_frame_def Let_def)
    also have "\<dots> = compared (?st1\<lparr>is_duplicate := False\<rparr>) @
        concat (map (position_comparisons P B thr fs d idx)
                    (until_first (position_matches P B thr fs d idx) (unique_frames ?st1)))"
      by (rule compare_loop_trace [OF nd])
    finally show ?thesis using Some c1 u1 by simp
  qed
qed

lemma position_comparisons_prepared:
  assumes "idx < length fs" "u \<in> set fs"
  shows "position_comparisons P B thr fs (prepare_comparison_data P B fs) idx u =
           pair_comparisons P B thr fs idx u"
proof -
  from assms(2) obtain j where j: "unique_list_idx fs u = Some j"
    using unique_list_idx_member by fastforce
  from unique_list_idx_Some [OF j] have "j < length fs" "fs ! j = u" by simp_all
  with assms(1) j show ?thesis
    by (simp add: position_comparisons_def pair_comparisons_def prepared_images prepared_features)
qed

lemma review_frame_amended:
  assumes idx: "idx < length fs" and sub: "set (unique_frames st) \<subseteq> set fs"
  shows "(unique_frames (review_frame P B thr cb fs (prepare_comparison_data P B fs) idx st),
          compared (review_frame P B thr cb fs (prepare_comparison_data P B fs) idx st)) =
         amended_step P B thr fs idx (unique_frames st, compared st)"
proof -
  let ?d = "prepare_comparison_data P B fs"
  have pm: "position_matches P B thr fs ?d idx u = pair_matches P B thr (fs ! idx) u"
    if "u \<in> set (unique_frames st)" for u
    using that sub by (intro position_matches_prepared [OF idx]) auto
  have uf: "until_first (position_matches P B thr fs ?d idx) (unique_frames st) =
            until_first (pair_matches P B thr (fs ! idx)) (unique_frames st)"
    by (rule until_first_cong) (rule pm)
  have pc: "map (position_comparisons P B thr fs ?d idx)
              (until_first (pair_matches P B thr (fs ! idx)) (unique_frames st)) =
            map (pair_comparisons P B thr fs idx)
              (until_first (pair_matches P B thr (fs ! idx)) (unique_frames st))"
  proof (rule map_cong [OF refl])
    fix u assume "u \<in> set (until_first (pair_matches P B thr (fs ! idx)) (unique_frames st))"
    with until_first_subset sub have "u \<in> set fs" by fastforce
    then show "position_comparisons P B thr fs ?d idx u = pair_comparisons P B thr fs idx u"
      by (rule position_comparisons_prepared [OF idx])
  qed
  have ex: "(\<exists>u \<in> set (unique_frames st). position_matches P B thr fs ?d idx u) =
            (\<exists>u \<in> set (unique_frames st). pair_matches P B thr (fs ! idx) u)"
    using pm by auto
  show ?thesis
    unfolding review_frame_unique review_frame_trace uf pc ex amended_step_def
    by simp
qed

lemma review_frame_stays_inside:
  assumes "idx < length fs" "set (unique_frames st) \<subseteq> set fs"
  shows "set (unique_frames (review_frame P B thr cb fs d idx st)) \<subseteq> set fs"
  using assms by (auto simp: review_frame_unique)

lemma fold_review_amended:
  assumes "\<forall>idx \<in> set idxs. idx < length fs" and "set (unique_frames st) \<subseteq> set fs"
  shows "(unique_frames (fold (review_frame P B thr cb fs (prepare_comparison_data P B fs)) idxs st),
          compared (fold (review_frame P B thr cb fs (prepare_comparison_data P B fs)) idxs st)) =
         fold (amended_step P B thr fs) idxs (unique_frames st, compared st)"
  using assms
proof (induction idxs arbitrary: st)
  case Nil
  then show ?case by simp
next
  case (Cons i idxs)
  let ?st1 = "review_frame P B thr cb fs (prepare_comparison_data P B fs) i st"
  from Cons.prems have i: "i < length fs" and rest: "\<forall>idx \<in> set idxs. idx < length fs"
    by simp_all
  have sub1: "set (unique_frames ?st1) \<subseteq> set fs"
    by (rule review_frame_stays_inside [OF i Cons.prems(2)])
  from Cons.IH [OF rest sub1] review_frame_amended [OF i Cons.prems(2), of P B thr cb]
  show ?case by simp
qed

lemma pass_as_amended:
  "(returned (remove_duplicate_frames P B fs thr cb),
    dedup_compared (remove_duplicate_frames P B fs thr cb)) = amended_pass P B thr fs"
proof (cases "length fs \<le> 1")
  case True
  then show ?thesis by (auto simp: remove_duplicate_frames_def amended_pass_def)
next
  case False
  then have ne: "fs \<noteq> []" by auto
  let ?st0 = "\<lparr>unique_frames = [fs ! 0], is_duplicate = False, duplicates_removed = 0,
               reports = (if cb then [first_review_snapshot fs] else []), compared = []\<rparr>"
  have sub: "set (unique_frames ?st0) \<subseteq> set fs" using ne by simp
  have all: "\<forall>idx \<in> set [1..<length fs]. idx < length fs" by simp
  from fold_review_amended [OF all sub, of P B thr cb] False ne show ?thesis
    by (simp add: remove_duplicate_frames_def review_all_def amended_pass_def Let_def)
qed

lemma returned_kept_frames:
  "returned (remove_duplicate_frames P B fs thr cb) = kept_frames P B thr fs"
proof (cases fs)
  case Nil
  then show ?thesis by (simp add: remove_duplicate_frames_def kept_frames_def)
next
  case (Cons x xs)
  then show ?thesis by (simp add: returned_greedy kept_frames_def)
qed

lemma review_frame_compared:
  "\<exists>ps. compared (review_frame P B thr cb fs d idx st) = compared st @ ps \<and>
        (\<forall>p \<in> set ps. fst p = idx \<and>
           (\<exists>u \<in> set (unique_frames st). unique_list_idx fs u = Some (snd p)))"
proof -
  let ?st1 = "if cb \<and> idx mod 10 = 0
              then st\<lparr>reports := reports st @ [review_snapshot fs idx st]\<rparr> else st"
  have u1: "unique_frames ?st1 = unique_frames st" and c1: "compared ?st1 = compared st"
    by simp_all
  show ?thesis
  proof (cases "image_entry (fs ! idx)")
    case None
    then have "compared (review_frame P B thr cb fs d idx st) = compared st @ []"
      by (simp add: review_frame_def Let_def)
    then show ?thesis by (intro exI [of _ "[]"]) simp
  next
    case (Some a)
    let ?st2 = "compare_loop P B thr fs d idx (?st1\<lparr>is_duplicate := False\<rparr>) (unique_frames ?st1)"
    have nd: "\<not> is_duplicate (?st1\<lparr>is_duplicate := False\<rparr>)" by simp
    from compare_loop_result [OF nd, of P B thr fs d idx "unique_frames ?st1"]
    obtain ps where ps: "compared ?st2 = compared (?st1\<lparr>is_duplicate := False\<rparr>) @ ps"
      "\<forall>p \<in> set ps. fst p = idx \<and>
          (\<exists>u \<in> set (unique_frames ?st1). unique_list_idx fs u = Some (snd p))"
      by blast
    have "compared (review_frame P B thr cb fs d idx st) = compared ?st2"
      using Some by (simp add: review_frame_def Let_def)
    with ps c1 u1 show ?thesis by (intro exI [of _ ps]) simp
  qed
qed

lemma review_frame_keeps: "set (unique_frames st) \<subseteq> set (unique_frames (review_frame P B thr cb fs d idx st))"
  by (auto simp: review_frame_unique)

lemma review_frame_compared_with_kept:
  assumes "compared_with_kept fs st"
  shows "compared_with_kept fs (review_frame P B thr cb fs d idx st)"
proof -
  from review_frame_compared [of P B thr cb fs d idx st] obtain ps where
    ps: "compared (review_frame P B thr cb fs d idx st) = compared st @ ps"
    "\<forall>p \<in> set ps. fst p = idx \<and>
       (\<exists>u \<in> set (unique_frames st). unique_list_idx fs u = Some (snd p))" by blast
  have new: "snd p < length fs \<and> fs ! snd p \<in> set (unique_frames st)" if "p \<in> set ps" for p
  proof -
    from ps(2) that obtain u where "u \<in> set (unique_frames st)"
      "unique_list_idx fs u = Some (snd p)" by blast
    with unique_list_idx_Some [of fs u "snd p"] show ?thesis by simp
  qed
  show ?thesis
    unfolding compared_with_kept_def ps(1)
    using assms new review_frame_keeps [of st P B thr cb fs d idx]
    by (auto simp: compared_with_kept_def)
qed

lemma fold_review_compared_with_kept:
  "compared_with_kept fs st \<Longrightarrow>
   compared_with_kept fs (fold (review_frame P B thr cb fs d) idxs st)"
  by (induction idxs arbitrary: st) (simp_all add: review_frame_compared_with_kept)

lemma review_all_compared_with_kept: "compared_with_kept fs (review_all P B thr cb fs)"
  unfolding review_all_def
  by (rule fold_review_compared_with_kept) (simp add: compared_with_kept_def)

lemmas ml_run_defs = remove_duplicate_frames_def review_all_def review_frame_def
  compare_with_unique_def ml_compare_def ssim_compare_def prepare_comparison_data_def
  prepare_frame_def features_get_def Let_def shot_def blank_def near_def
  VideoProcessor_init_def first_review_snapshot_def last_review_snapshot_def
  review_snapshot_def embedding_backend_def with_embedding_def failing_backend_def
  with_failures_def

lemmas claimed_defs = deduplicate_as_claimed_def claimed_duplicate_def
  configured_similarity_def features_of_def kept_frames_def discards_def pair_matches_def
  cosine_reaches_def ssim_reaches_def both_strategies_fail_def

lemma first_match_run:
  "remove_duplicate_frames with_embedding embedding_backend
      [shot 0 0, shot 5 2, shot 9 1] 0.95 False =
   \<lparr>returned = [shot 0 0, shot 5 2], dedup_progress = [],
    dedup_compared = [(1, 0), (1, 0), (2, 0), (2, 0)]\<rparr>"
  by (simp add: ml_run_defs upt_rec)













text \<open>
  C2 (a candidate is discarded exactly when a kept frame reaches the threshold under the
  strategy configured at construction). This fails: with \<^verbatim>\<open>use_ml\<close> set and features for
  both frames, a kept frame whose cosine similarity is below the threshold is compared
  again by SSIM (line 487), and the candidate is discarded when SSIM reaches the
  threshold.
\<close>

theorem ssim_discards_under_embedding_strategy:
  "returned (remove_duplicate_frames with_embedding embedding_backend
      [shot 0 0, shot 5 1] 0.95 False) = [shot 0 0] \<and>
   deduplicate_as_claimed with_embedding embedding_backend 0.95 [shot 0 0, shot 5 1] =
     [shot 0 0, shot 5 1]"
  by (simp add: ml_run_defs claimed_defs upt_rec)


text \<open>
  C2, as amended. A candidate other than the first is discarded exactly when its
  \<^verbatim>\<open>'image'\<close> key is missing or some kept frame is reached by the cosine comparison (made
  when \<^verbatim>\<open>use_ml\<close> is set and both frames have features) or by the SSIM comparison (made
  when both frames have an image, also after a cosine comparison that stayed below the
  threshold): the returned list is \<open>kept_frames\<close>. The kept frames are scanned in order and
  the scan stops at the first match: the returned list together with the list of compared
  pairs is \<open>amended_pass\<close>, whose comparisons for a candidate are those with the kept frames
  up to and including the first that matches. Every comparison made pairs a candidate with
  a frame that is in the returned list.
\<close>

theorem kept_list_characterised:
  "returned (remove_duplicate_frames P B fs thr cb) = kept_frames P B thr fs \<and>
   (returned (remove_duplicate_frames P B fs thr cb),
    dedup_compared (remove_duplicate_frames P B fs thr cb)) = amended_pass P B thr fs \<and>
   (\<forall>p \<in> set (dedup_compared (remove_duplicate_frames P B fs thr cb)).
      snd p < length fs \<and>
      fs ! snd p \<in> set (returned (remove_duplicate_frames P B fs thr cb)))"
proof (intro conjI)
  show "returned (remove_duplicate_frames P B fs thr cb) = kept_frames P B thr fs"
    by (rule returned_kept_frames)
  show "(returned (remove_duplicate_frames P B fs thr cb),
    dedup_compared (remove_duplicate_frames P B fs thr cb)) = amended_pass P B thr fs"
    by (rule pass_as_amended)
  show "\<forall>p \<in> set (dedup_compared (remove_duplicate_frames P B fs thr cb)).
      snd p < length fs \<and>
      fs ! snd p \<in> set (returned (remove_duplicate_frames P B fs thr cb))"
    using review_all_compared_with_kept [of fs P B thr cb]
    by (simp add: remove_duplicate_frames_def Let_def compared_with_kept_def)
qed


theorem kept_list_characterised_witness:
  "remove_duplicate_frames with_embedding embedding_backend
      [shot 0 0, shot 5 2, shot 9 1] 0.95 False =
     \<lparr>returned = [shot 0 0, shot 5 2], dedup_progress = [],
      dedup_compared = [(1, 0), (1, 0), (2, 0), (2, 0)]\<rparr> \<and>
   kept_frames with_embedding embedding_backend 0.95 [shot 0 0, shot 5 2, shot 9 1] =
     [shot 0 0, shot 5 2] \<and>
   amended_pass with_embedding embedding_backend 0.95 [shot 0 0, shot 5 2, shot 9 1] =
     ([shot 0 0, shot 5 2], [(1, 0), (1, 0), (2, 0), (2, 0)]) \<and>
   list_all (\<lambda>p. snd p < length [shot 0 0, shot 5 2, shot 9 1] \<and>
                 [shot 0 0, shot 5 2, shot 9 1] ! snd p \<in> set [shot 0 0, shot 5 2])
     [(1, 0), (1, 0), (2, 0), (2, 0)]"
proof -
  note c2 = kept_list_characterised [where P = with_embedding and B = embedding_backend
      and fs = "[shot 0 0, shot 5 2, shot 9 1]" and thr = "0.95" and cb = False,
      unfolded first_match_run]
  have kept: "kept_frames with_embedding embedding_backend 0.95
      [shot 0 0, shot 5 2, shot 9 1] = [shot 0 0, shot 5 2]"
    using c2 [THEN conjunct1, symmetric] by simp
  have pass: "amended_pass with_embedding embedding_backend 0.95
      [shot 0 0, shot 5 2, shot 9 1] = ([shot 0 0, shot 5 2], [(1, 0), (1, 0), (2, 0), (2, 0)])"
    using c2 [THEN conjunct2, THEN conjunct1, symmetric] by simp
  have pairs: "list_all (\<lambda>p. snd p < length [shot 0 0, shot 5 2, shot 9 1] \<and>
                 [shot 0 0, shot 5 2, shot 9 1] ! snd p \<in> set [shot 0 0, shot 5 2])
     [(1, 0), (1, 0), (2, 0), (2, 0)]"
    using c2 [THEN conjunct2, THEN conjunct2] by (simp add: list_all_iff)
  from kept pass pairs show ?thesis unfolding first_match_run by simp
qed








end
